theory Spec2Isabelle
  imports Main
begin

section \<open>Data model\<close>

text \<open>
  The trigger of an overlay is either a real DOM element or a \<open>VirtualTrigger\<close>
  (\<open>this.triggerElement instanceof VirtualTrigger\<close>); the field is optional.
\<close>

datatype trigger = VirtualTrigger | HTMLElement

datatype exn = DOMException

text \<open>
  An \<open>OpenableElement\<close> as \<open>makeTransition\<close> reads it: its optional \<open>open\<close> flag
  (\<open>None\<close> when \<open>typeof el.open\<close> is \<open>'undefined'\<close>), the result of
  \<open>firstFocusableIn(el)\<close>, and for each slot of \<open>el.querySelectorAll('slot')\<close> the
  result of \<open>firstFocusableSlottedIn(slot)\<close>. Focusable elements are named by numbers.
\<close>

record openable =
  el_open :: "bool option"
  firstFocusableIn :: "nat option"
  childSlots :: "nat option list"

text \<open>
  The overlay as the mixin reads and writes it. \<open>matches_popover_open\<close> and
  \<open>matches_open\<close> are what \<open>this.dialogEl.matches(':popover-open')\<close> and
  \<open>this.dialogEl.matches(':open')\<close> do when called: return a boolean or throw.
  \<open>contains_activeElement\<close> is \<open>this.contains(this.getRootNode().activeElement)\<close>.
\<close>

record overlay =
  "open" :: bool
  delayed :: bool
  receivesFocus :: string
  type :: string
  triggerElement :: "trigger option"
  isConnected :: bool
  matches_popover_open :: "exn + bool"
  matches_open :: "exn + bool"
  elements :: "openable list"
  contains_activeElement :: bool

section \<open>Effects, suspension points and tasks\<close>

text \<open>
  The code is asynchronous: it runs in synchronous spans between suspension points
  (\<open>await\<close>, a registered callback, a one-shot listener). A suspended computation
  waits for one of the following.
\<close>

datatype wait =
    Timer              \<comment> \<open>\<open>await overlayTimer.openTimer(this)\<close>; resolves with \<open>cancelled\<close>\<close>
  | Frame              \<comment> \<open>\<open>await nextFrame()\<close>\<close>
  | Position           \<comment> \<open>\<open>await this.managePosition()\<close>\<close>
  | Microtask          \<comment> \<open>\<open>await\<close> of a phase whose promise is already settled\<close>
  | Transitionend nat  \<comment> \<open>\<open>finish(el, index)\<close> held by \<open>guaranteedAllTransitionend\<close>\<close>
  | Beforetoggle       \<comment> \<open>the \<open>{ once: true }\<close> listener on \<open>this.dialogEl\<close>\<close>

datatype node = Root | Element nat | TriggerNode

datatype event =
    BeforetoggleOpenEvent
  | BeforetoggleClosedEvent
  | Event string bool bool               \<comment> \<open>name, bubbles, composed\<close>
  | CustomEvent string bool bool string  \<comment> \<open>name, bubbles, composed, detail.interaction\<close>

text \<open>
  What a span does to the outside, in the order it does it. \<open>StartCallback\<close> and
  \<open>Awaited\<close> record control flow only: the waiter calling \<open>start\<close>, and a
  suspended computation being resumed. The calls into the platform and into the
  imported collaborators (\<open>overlayTimer\<close>, \<open>managePosition\<close>, \<open>showPopover\<close>,
  \<open>hidePopover\<close>, \<open>dispatchEvent\<close>, \<open>focus\<close>) are recorded, not interpreted:
  what they and the rest of the page do to the overlay is a step of the environment
  between two spans.
\<close>

datatype effect =
    TimerClose                \<comment> \<open>\<open>overlayTimer.close(this)\<close>\<close>
  | OpenTimer                 \<comment> \<open>\<open>overlayTimer.openTimer(this)\<close>\<close>
  | SetOpen bool              \<comment> \<open>\<open>this.open = ...\<close>\<close>
  | ShowPopover               \<comment> \<open>\<open>this.dialogEl.showPopover()\<close>\<close>
  | ManagePosition            \<comment> \<open>\<open>this.managePosition()\<close>\<close>
  | HidePopover               \<comment> \<open>\<open>this.dialogEl.hidePopover()\<close>\<close>
  | AddEventListener string   \<comment> \<open>\<open>this.dialogEl.addEventListener(..., { once: true })\<close>\<close>
  | SetElOpen nat bool        \<comment> \<open>\<open>el.open = targetOpenState\<close> on element \<open>index\<close>\<close>
  | Dispatch node event       \<comment> \<open>\<open>dispatchEvent\<close> on the overlay, an element or the trigger\<close>
  | FocusTrigger              \<comment> \<open>\<open>this.triggerElement.focus()\<close>\<close>
  | FocusEl nat               \<comment> \<open>\<open>focusEl.focus()\<close>\<close>
  | StartCallback nat
  | Awaited wait

datatype delay_pt = Delay_openTimer
datatype dom_pt = Dom_nextFrame1 | Dom_managePosition | Dom_nextFrame2
datatype focus_pt = Focus_nextFrame1 | Focus_nextFrame2

datatype 'p status = Suspended wait 'p | Returned

type_synonym 'p outcome = "effect list \<times> overlay \<times> 'p status"

text \<open>
  The suspension points of \<open>managePopoverOpen\<close>: inside a phase it awaits, or at the
  \<open>await\<close> of a phase that has returned. \<open>After_makeTransition\<close> and
  \<open>In_applyFocus\<close> carry \<open>focusEl\<close>.
\<close>

datatype driver_pt =
    In_manageDelay delay_pt
  | After_manageDelay
  | In_ensureOnDOM dom_pt
  | After_ensureOnDOM
  | After_makeTransition "nat option"
  | In_applyFocus "nat option" focus_pt

text \<open>
  A suspended computation, with the \<open>targetOpenState\<close> (and element index) its
  closure captured.
\<close>

datatype task =
    Driver bool driver_pt    \<comment> \<open>\<open>managePopoverOpen\<close>\<close>
  | Finish bool nat          \<comment> \<open>\<open>finish(el, index)\<close>, not yet called\<close>
  | Listener bool nat        \<comment> \<open>the beforetoggle listener \<open>() => { reportChange(); }\<close>\<close>
  | Report bool nat          \<comment> \<open>\<open>reportChange\<close> at its \<open>await nextFrame()\<close>\<close>

datatype ending = Awaiting | Stale | Completed

section \<open>The delay phase\<close>

definition manageDelay :: "bool \<Rightarrow> overlay \<Rightarrow> delay_pt outcome" where
  "manageDelay targetOpenState w =
     (if targetOpenState = False \<or> targetOpenState \<noteq> open w then ([TimerClose], w, Returned)
      else if delayed w then ([OpenTimer], w, Suspended Timer Delay_openTimer)
      else ([], w, Returned))"

fun manageDelay_resume :: "bool \<Rightarrow> delay_pt \<Rightarrow> bool \<Rightarrow> overlay \<Rightarrow> delay_pt outcome" where
  "manageDelay_resume targetOpenState Delay_openTimer cancelled w =
     (if cancelled then ([SetOpen (\<not> targetOpenState)], w\<lparr>open := \<not> targetOpenState\<rparr>, Returned)
      else ([], w, Returned))"

section \<open>The DOM-attach phase\<close>

text \<open>\<open>let r = false; try { r = this.dialogEl.matches(sel); } catch (error) {}\<close>\<close>

definition try_matches :: "exn + bool \<Rightarrow> bool" where
  "try_matches r = (case r of Inl error \<Rightarrow> False | Inr b \<Rightarrow> b)"

definition ensureOnDOM :: "bool \<Rightarrow> overlay \<Rightarrow> dom_pt outcome" where
  "ensureOnDOM targetOpenState w = ([], w, Suspended Frame Dom_nextFrame1)"

fun ensureOnDOM_resume :: "bool \<Rightarrow> dom_pt \<Rightarrow> bool \<Rightarrow> overlay \<Rightarrow> dom_pt outcome" where
  "ensureOnDOM_resume targetOpenState Dom_nextFrame1 v w =
     (let popoverOpen = try_matches (matches_popover_open w);
          open' = try_matches (matches_open w)
      in if targetOpenState \<and> open w = targetOpenState \<and> \<not> popoverOpen \<and> \<not> open' \<and> isConnected w
         then ([ShowPopover, ManagePosition], w, Suspended Position Dom_managePosition)
         else ([], w, Suspended Frame Dom_nextFrame2))"
| "ensureOnDOM_resume targetOpenState Dom_managePosition v w =
     ([], w, Suspended Frame Dom_nextFrame2)"
| "ensureOnDOM_resume targetOpenState Dom_nextFrame2 v w = ([], w, Returned)"

section \<open>The transition phase\<close>

definition eventName :: "bool \<Rightarrow> string" where
  "eventName targetOpenState = (if targetOpenState then ''sp-opened'' else ''sp-closed'')"

text \<open>
  The \<open>start(el, index)\<close> callback. It writes \<open>el.open\<close> and the variable
  \<open>focusEl\<close> of the enclosing \<open>makeTransition\<close>, so it transforms the pair of the
  overlay and \<open>focusEl\<close>.
\<close>

definition start :: "bool \<Rightarrow> openable \<Rightarrow> nat \<Rightarrow> overlay \<times> nat option
    \<Rightarrow> effect list \<times> (overlay \<times> nat option)" where
  "start targetOpenState el index = (\<lambda>(w, focusEl).
     let (e1, w1) =
           (if el_open el \<noteq> None
            then ([SetElOpen index targetOpenState],
                  w\<lparr>elements := (elements w)[index := el\<lparr>el_open := Some targetOpenState\<rparr>]\<rparr>)
            else ([], w));
         e2 = (if index = 0
               then [Dispatch Root (if targetOpenState then BeforetoggleOpenEvent
                                    else BeforetoggleClosedEvent)]
               else [])
     in if \<not> targetOpenState then (e1 @ e2, (w1, focusEl))
        else let focusEl1 = (case focusEl of Some f \<Rightarrow> Some f | None \<Rightarrow> firstFocusableIn el)
             in if focusEl1 \<noteq> None then (e1 @ e2, (w1, focusEl1))
                else (e1 @ e2,
                      (w1, fold (\<lambda>slot f. if f = None then slot else f) (childSlots el) focusEl1)))"

text \<open>
  \<open>reportChange\<close> up to its \<open>await nextFrame()\<close>, and from there on. It is called
  without \<open>await\<close>, so what follows the frame runs as a task of its own.
\<close>

definition reportChange :: "bool \<Rightarrow> nat \<Rightarrow> overlay \<Rightarrow> effect list \<times> (wait \<times> task) list" where
  "reportChange targetOpenState index w =
     (if open w \<noteq> targetOpenState then ([], [])
      else ([], [(Frame, Report targetOpenState index)]))"

definition reportChange_resume :: "bool \<Rightarrow> nat \<Rightarrow> overlay \<Rightarrow> effect list" where
  "reportChange_resume targetOpenState index w =
     (let hasVirtualTrigger = (triggerElement w = Some VirtualTrigger)
      in [Dispatch Root (Event (eventName targetOpenState) hasVirtualTrigger hasVirtualTrigger),
          Dispatch (Element index) (Event (eventName targetOpenState) False False)] @
         (if triggerElement w \<noteq> None \<and> \<not> hasVirtualTrigger
          then [Dispatch TriggerNode (CustomEvent (eventName targetOpenState) True True (type w))]
          else []))"

text \<open>The \<open>finish(el, index)\<close> callback, run when the waiter calls it.\<close>

definition finish :: "bool \<Rightarrow> nat \<Rightarrow> overlay \<Rightarrow> effect list \<times> (wait \<times> task) list" where
  "finish targetOpenState index w =
     (if open w \<noteq> targetOpenState then ([], [])
      else if index > 0
      then ([Dispatch (Element index)
               (CustomEvent (eventName targetOpenState) False False (type w))], [])
      else if open w \<noteq> targetOpenState then ([], [])
      else let popoverOpen = try_matches (matches_popover_open w);
               open' = try_matches (matches_open w)
           in if targetOpenState \<noteq> True \<and> (popoverOpen \<or> open') \<and> isConnected w
              then ([AddEventListener ''beforetoggle'', HidePopover],
                    [(Beforetoggle, Listener targetOpenState index)])
              else reportChange targetOpenState index w)"

text \<open>
  Modelled from the spec: \<open>guaranteedAllTransitionend\<close> is imported from
  \<open>OverlayBase.js\<close>, which is not among the sources. The spec's transition-completion
  waiter: "given an element and two callbacks (start, finish), guarantees start runs
  synchronously/immediately and finish runs exactly once after all relevant CSS
  transitions on that element (and its watched descendants) have ended". So the call
  runs \<open>action\<close> at once and keeps \<open>cb\<close> as a task waiting for the transitions of
  that element.
\<close>

definition guaranteedAllTransitionend :: "nat \<Rightarrow> ('s \<Rightarrow> effect list \<times> 's) \<Rightarrow> task \<Rightarrow> 's
    \<Rightarrow> effect list \<times> 's \<times> (wait \<times> task) list" where
  "guaranteedAllTransitionend index action cb s =
     (case action s of (effs, s') \<Rightarrow> (StartCallback index # effs, s', [(Transitionend index, cb)]))"

text \<open>\<open>this.elements.forEach((el, index) => guaranteedAllTransitionend(...))\<close>\<close>

fun forEach_elements :: "bool \<Rightarrow> (nat \<times> openable) list \<Rightarrow> overlay \<times> nat option
    \<Rightarrow> effect list \<times> (overlay \<times> nat option) \<times> (wait \<times> task) list" where
  "forEach_elements targetOpenState [] s = ([], s, [])"
| "forEach_elements targetOpenState ((index, el) # rest) s =
     (case guaranteedAllTransitionend index (start targetOpenState el index)
             (Finish targetOpenState index) s of
        (effs, s', tasks) \<Rightarrow>
          (case forEach_elements targetOpenState rest s' of
             (effs', s'', tasks') \<Rightarrow> (effs @ effs', s'', tasks @ tasks')))"

definition makeTransition :: "bool \<Rightarrow> overlay
    \<Rightarrow> effect list \<times> overlay \<times> nat option \<times> (wait \<times> task) list" where
  "makeTransition targetOpenState w =
     (if open w \<noteq> targetOpenState then ([], w, None, [])
      else case forEach_elements targetOpenState (enumerate 0 (elements w)) (w, None) of
             (effs, (w', focusEl), tasks) \<Rightarrow> (effs, w', focusEl, tasks))"

section \<open>The focus phase\<close>

definition applyFocus :: "bool \<Rightarrow> nat option \<Rightarrow> overlay \<Rightarrow> focus_pt outcome" where
  "applyFocus targetOpenState focusEl w =
     (if receivesFocus w = ''false'' \<or> type w = ''hint'' then ([], w, Returned)
      else ([], w, Suspended Frame Focus_nextFrame1))"

fun applyFocus_resume :: "bool \<Rightarrow> nat option \<Rightarrow> focus_pt \<Rightarrow> bool \<Rightarrow> overlay \<Rightarrow> focus_pt outcome" where
  "applyFocus_resume targetOpenState focusEl Focus_nextFrame1 v w =
     ([], w, Suspended Frame Focus_nextFrame2)"
| "applyFocus_resume targetOpenState focusEl Focus_nextFrame2 v w =
     (if targetOpenState = open w \<and> \<not> open w
      then ((if triggerElement w \<noteq> None \<and> triggerElement w \<noteq> Some VirtualTrigger
             then (if contains_activeElement w then [FocusTrigger] else [])
             else []), w, Returned)
      else ((case focusEl of None \<Rightarrow> [] | Some f \<Rightarrow> [FocusEl f]), w, Returned))"

section \<open>The pipeline driver\<close>

text \<open>
  \<open>await phase(...)\<close> in \<open>managePopoverOpen\<close>: while the phase is suspended the
  driver is suspended inside it; once the phase has returned the driver resumes in a
  later microtask.
\<close>

definition await_phase :: "bool \<Rightarrow> ('p \<Rightarrow> driver_pt) \<Rightarrow> driver_pt \<Rightarrow> 'p outcome
    \<Rightarrow> effect list \<times> overlay \<times> (wait \<times> task) list \<times> ending" where
  "await_phase targetOpenState inside after out =
     (case out of
        (effs, w, Suspended wt p) \<Rightarrow> (effs, w, [(wt, Driver targetOpenState (inside p))], Awaiting)
      | (effs, w, Returned) \<Rightarrow> (effs, w, [(Microtask, Driver targetOpenState after)], Awaiting))"

text \<open>The last phase: when \<open>applyFocus\<close> has returned, nothing is left to do.\<close>

definition await_last :: "bool \<Rightarrow> ('p \<Rightarrow> driver_pt) \<Rightarrow> 'p outcome
    \<Rightarrow> effect list \<times> overlay \<times> (wait \<times> task) list \<times> ending" where
  "await_last targetOpenState inside out =
     (case out of
        (effs, w, Suspended wt p) \<Rightarrow> (effs, w, [(wt, Driver targetOpenState (inside p))], Awaiting)
      | (effs, w, Returned) \<Rightarrow> (effs, w, [], Completed))"

definition managePopoverOpen :: "overlay
    \<Rightarrow> effect list \<times> overlay \<times> (wait \<times> task) list \<times> ending" where
  "managePopoverOpen w =
     (let targetOpenState = open w
      in if open w \<noteq> targetOpenState then ([], w, [], Stale)
         else await_phase targetOpenState In_manageDelay After_manageDelay
                (manageDelay targetOpenState w))"

fun managePopoverOpen_resume :: "bool \<Rightarrow> driver_pt \<Rightarrow> bool \<Rightarrow> overlay
    \<Rightarrow> effect list \<times> overlay \<times> (wait \<times> task) list \<times> ending" where
  "managePopoverOpen_resume targetOpenState (In_manageDelay p) v w =
     await_phase targetOpenState In_manageDelay After_manageDelay
       (manageDelay_resume targetOpenState p v w)"
| "managePopoverOpen_resume targetOpenState After_manageDelay v w =
     (if open w \<noteq> targetOpenState then ([], w, [], Stale)
      else await_phase targetOpenState In_ensureOnDOM After_ensureOnDOM
             (ensureOnDOM targetOpenState w))"
| "managePopoverOpen_resume targetOpenState (In_ensureOnDOM p) v w =
     await_phase targetOpenState In_ensureOnDOM After_ensureOnDOM
       (ensureOnDOM_resume targetOpenState p v w)"
| "managePopoverOpen_resume targetOpenState After_ensureOnDOM v w =
     (if open w \<noteq> targetOpenState then ([], w, [], Stale)
      else case makeTransition targetOpenState w of
             (effs, w', focusEl, tasks) \<Rightarrow>
               (effs, w', tasks @ [(Microtask, Driver targetOpenState (After_makeTransition focusEl))],
                Awaiting))"
| "managePopoverOpen_resume targetOpenState (After_makeTransition focusEl) v w =
     (if open w \<noteq> targetOpenState then ([], w, [], Stale)
      else await_last targetOpenState (In_applyFocus focusEl)
             (applyFocus targetOpenState focusEl w))"
| "managePopoverOpen_resume targetOpenState (In_applyFocus focusEl p) v w =
     await_last targetOpenState (In_applyFocus focusEl)
       (applyFocus_resume targetOpenState focusEl p v w)"

section \<open>Running tasks under a schedule\<close>

text \<open>
  The event loop: a configuration holds the overlay, the suspended tasks and the
  effects so far. A schedule step resumes one suspended task with the value its wait
  resolved to (used by the timer only), or lets the rest of the page change the
  overlay between two spans. A resumed task leaves the pool, so every continuation,
  callback and listener runs at most once.
\<close>

record config =
  world :: overlay
  pool :: "(wait \<times> task) list"
  trace :: "effect list"

fun resume_task :: "task \<Rightarrow> bool \<Rightarrow> overlay \<Rightarrow> effect list \<times> overlay \<times> (wait \<times> task) list" where
  "resume_task (Driver targetOpenState pt) v w =
     (case managePopoverOpen_resume targetOpenState pt v w of
        (effs, w', tasks, e) \<Rightarrow> (effs, w', tasks))"
| "resume_task (Finish targetOpenState index) v w =
     (case finish targetOpenState index w of (effs, tasks) \<Rightarrow> (effs, w, tasks))"
| "resume_task (Listener targetOpenState index) v w =
     (case reportChange targetOpenState index w of (effs, tasks) \<Rightarrow> (effs, w, tasks))"
| "resume_task (Report targetOpenState index) v w =
     (reportChange_resume targetOpenState index w, w, [])"

datatype sched = Fire nat bool | Env "overlay \<Rightarrow> overlay"

fun step :: "sched \<Rightarrow> config \<Rightarrow> config" where
  "step (Fire i v) c =
     (if i < length (pool c)
      then case pool c ! i of
             (wt, tk) \<Rightarrow>
               (case resume_task tk v (world c) of
                  (effs, w', tasks) \<Rightarrow>
                    \<lparr>world = w', pool = take i (pool c) @ drop (Suc i) (pool c) @ tasks,
                     trace = trace c @ Awaited wt # effs\<rparr>)
      else c)"
| "step (Env f) c = c\<lparr>world := f (world c)\<rparr>"

definition exec :: "sched list \<Rightarrow> config \<Rightarrow> config" where
  "exec sch c = fold step sch c"

text \<open>A call of \<open>managePopoverOpen\<close> on the overlay \<open>w\<close>.\<close>

definition invoke :: "overlay \<Rightarrow> config" where
  "invoke w = (case managePopoverOpen w of
     (effs, w', tasks, e) \<Rightarrow> \<lparr>world = w', pool = tasks, trace = effs\<rparr>)"

text \<open>
  One phase on its own: each item of the environment is what the page does to the
  overlay while the phase is suspended, and the value the wait resolves to.
\<close>

fun run_phase :: "('p \<Rightarrow> bool \<Rightarrow> overlay \<Rightarrow> 'p outcome) \<Rightarrow> ((overlay \<Rightarrow> overlay) \<times> bool) list
    \<Rightarrow> 'p outcome \<Rightarrow> 'p outcome" where
  "run_phase resume env (effs, w, Returned) = (effs, w, Returned)"
| "run_phase resume [] (effs, w, Suspended wt p) = (effs, w, Suspended wt p)"
| "run_phase resume ((f, v) # env) (effs, w, Suspended wt p) =
     (case resume p v (f w) of
        (effs', w', st) \<Rightarrow> run_phase resume env (effs @ Awaited wt # effs', w', st))"

section \<open>Reading outcomes and traces\<close>

text \<open>How a span of the driver ended.\<close>

definition ending_of :: "effect list \<times> overlay \<times> (wait \<times> task) list \<times> ending \<Rightarrow> ending" where
  "ending_of r = (case r of (effs, w, tasks, e) \<Rightarrow> e)"

text \<open>A write of the controller's \<open>open\<close>.\<close>

fun is_SetOpen :: "effect \<Rightarrow> bool" where
  "is_SetOpen (SetOpen b) = True"
| "is_SetOpen e = False"

text \<open>The one suspension point inside the delay phase.\<close>

fun in_delay_phase :: "task \<Rightarrow> bool" where
  "in_delay_phase (Driver targetOpenState (In_manageDelay p)) = True"
| "in_delay_phase tk = False"

text \<open>Any \<open>dispatchEvent\<close>.\<close>

fun is_Dispatch :: "effect \<Rightarrow> bool" where
  "is_Dispatch (Dispatch n ev) = True"
| "is_Dispatch e = False"

text \<open>
  \<open>preceded p q tr\<close>: every effect of the trace that satisfies \<open>q\<close> comes after an
  effect that satisfies \<open>p\<close>.
\<close>

fun preceded :: "(effect \<Rightarrow> bool) \<Rightarrow> (effect \<Rightarrow> bool) \<Rightarrow> effect list \<Rightarrow> bool" where
  "preceded p q [] = True"
| "preceded p q (e # es) = (\<not> q e \<and> (p e \<or> preceded p q es))"

text \<open>
  The waiter holding \<open>finish(el, 0)\<close> of the primary element, about to call it.
\<close>

definition finish_pending :: "bool \<Rightarrow> overlay \<Rightarrow> config" where
  "finish_pending targetOpenState w =
     \<lparr>world = w, pool = [(Transitionend 0, Finish targetOpenState 0)], trace = []\<rparr>"

section \<open>Stale tasks\<close>

text \<open>The \<open>targetOpenState\<close> a suspended task captured.\<close>

fun target_of :: "task \<Rightarrow> bool" where
  "target_of (Driver targetOpenState pt) = targetOpenState"
| "target_of (Finish targetOpenState index) = targetOpenState"
| "target_of (Listener targetOpenState index) = targetOpenState"
| "target_of (Report targetOpenState index) = targetOpenState"

text \<open>
  The tasks whose span begins with \<open>if (this.open !== targetOpenState) return\<close>: the
  driver at its check after a phase, a \<open>finish\<close> callback, and the beforetoggle
  listener, which calls \<open>reportChange\<close>.
\<close>

fun checks_open :: "task \<Rightarrow> bool" where
  "checks_open (Driver targetOpenState After_manageDelay) = True"
| "checks_open (Driver targetOpenState After_ensureOnDOM) = True"
| "checks_open (Driver targetOpenState (After_makeTransition focusEl)) = True"
| "checks_open (Driver targetOpenState pt) = False"
| "checks_open (Finish targetOpenState index) = True"
| "checks_open (Listener targetOpenState index) = True"
| "checks_open (Report targetOpenState index) = False"

text \<open>
  The configuration after task \<open>i\<close> of the pool was resumed and ran a span that did
  \<open>effs\<close>, suspended into \<open>tasks\<close> and left the overlay as it was.
\<close>

definition retire :: "nat \<Rightarrow> effect list \<Rightarrow> (wait \<times> task) list \<Rightarrow> config \<Rightarrow> config" where
  "retire i effs tasks c =
     c\<lparr>pool := take i (pool c) @ drop (Suc i) (pool c) @ tasks,
       trace := trace c @ Awaited (fst (pool c ! i)) # effs\<rparr>"

section \<open>Order of events in a trace\<close>

fun is_start :: "effect \<Rightarrow> bool" where
  "is_start (StartCallback i) = True"
| "is_start e = False"

text \<open>The waiter calling \<open>finish\<close> of some element.\<close>

fun is_completion :: "effect \<Rightarrow> bool" where
  "is_completion (Awaited (Transitionend i)) = True"
| "is_completion e = False"

text \<open>Any \<open>sp-opened\<close> event, on any node.\<close>

fun is_opened :: "effect \<Rightarrow> bool" where
  "is_opened (Dispatch n (Event name b c)) = (name = ''sp-opened'')"
| "is_opened (Dispatch n (CustomEvent name b c d)) = (name = ''sp-opened'')"
| "is_opened e = False"

text \<open>
  The three events of \<open>reportChange\<close>: \<open>sp-opened\<close> on the overlay, the local one on
  the primary element, and the detail-carrying one on the trigger.
\<close>

fun root_opened :: "effect \<Rightarrow> bool" where
  "root_opened (Dispatch Root (Event name b c)) = (name = ''sp-opened'')"
| "root_opened e = False"

fun local_opened :: "effect \<Rightarrow> bool" where
  "local_opened (Dispatch (Element i) (Event name b c)) = (i = 0 \<and> name = ''sp-opened'')"
| "local_opened e = False"

fun trigger_opened :: "effect \<Rightarrow> bool" where
  "trigger_opened (Dispatch TriggerNode (CustomEvent name b c d)) = (name = ''sp-opened'')"
| "trigger_opened e = False"

text \<open>\<open>never_after p q tr\<close>: no effect satisfying \<open>q\<close> comes after one satisfying \<open>p\<close>.\<close>

fun never_after :: "(effect \<Rightarrow> bool) \<Rightarrow> (effect \<Rightarrow> bool) \<Rightarrow> effect list \<Rightarrow> bool" where
  "never_after p q [] = True"
| "never_after p q (e # es) = (\<not> (p e \<and> list_ex q es) \<and> never_after p q es)"

text \<open>The order of an opening run, as the code has it.\<close>

definition opening_order :: "effect list \<Rightarrow> bool" where
  "opening_order tr =
     (preceded (\<lambda>e. e = Dispatch Root BeforetoggleOpenEvent) is_opened tr
      \<and> never_after is_completion is_start tr
      \<and> preceded (\<lambda>e. e = Awaited (Transitionend 0)) root_opened tr
      \<and> preceded root_opened local_opened tr
      \<and> preceded local_opened trigger_opened tr)"

text \<open>
  Where an opening run can be: before its transition phase the driver is the only
  task and nothing has been dispatched; from the transition phase on, the pool holds
  the driver in or before the focus phase, \<open>finish\<close> callbacks and \<open>reportChange\<close>.
\<close>

fun pre_transition :: "driver_pt \<Rightarrow> bool" where
  "pre_transition (In_manageDelay p) = True"
| "pre_transition After_manageDelay = True"
| "pre_transition (In_ensureOnDOM p) = True"
| "pre_transition After_ensureOnDOM = True"
| "pre_transition pt = False"

fun is_driver :: "task \<Rightarrow> bool" where
  "is_driver (Driver t pt) = True"
| "is_driver tk = False"

fun post_task :: "wait \<times> task \<Rightarrow> bool" where
  "post_task (wt, Driver t pt) = (t \<and> \<not> pre_transition pt)"
| "post_task (wt, Finish t i) = (t \<and> wt = Transitionend i)"
| "post_task (wt, Listener t i) = False"
| "post_task (wt, Report t i) = (t \<and> i = 0)"

definition before_transition :: "config \<Rightarrow> bool" where
  "before_transition c =
     ((\<exists>wt pt. pool c = [(wt, Driver True pt)] \<and> pre_transition pt
         \<and> \<not> is_completion (Awaited wt))
      \<and> (\<forall>e \<in> set (trace c). \<not> is_start e \<and> \<not> is_completion e \<and> \<not> is_opened e))"

definition in_transition :: "config \<Rightarrow> bool" where
  "in_transition c =
     ((\<forall>x \<in> set (pool c). post_task x)
      \<and> ((\<forall>x \<in> set (pool c). is_driver (snd x))
           \<or> Dispatch Root BeforetoggleOpenEvent \<in> set (trace c))
      \<and> ((\<exists>wt. (wt, Report True 0) \<in> set (pool c))
           \<longrightarrow> Awaited (Transitionend 0) \<in> set (trace c))
      \<and> opening_order (trace c))"

section \<open>Sample overlays\<close>

definition surface :: openable where
  "surface = \<lparr>el_open = Some False, firstFocusableIn = None, childSlots = [None, Some 7]\<rparr>"

definition tooltip :: openable where
  "tooltip = \<lparr>el_open = None, firstFocusableIn = Some 3, childSlots = []\<rparr>"

text \<open>An overlay that has just been opened from a real trigger element.\<close>

definition opened_overlay :: overlay where
  "opened_overlay = \<lparr>open = True, delayed = False, receivesFocus = ''auto'', type = ''auto'',
     triggerElement = Some HTMLElement, isConnected = True,
     matches_popover_open = Inr False, matches_open = Inl DOMException,
     elements = [surface, tooltip], contains_activeElement = False\<rparr>"

text \<open>An overlay that has just been closed while the platform still presents it.\<close>

definition closed_overlay :: overlay where
  "closed_overlay = \<lparr>open = False, delayed = False, receivesFocus = ''auto'', type = ''auto'',
     triggerElement = Some HTMLElement, isConnected = True,
     matches_popover_open = Inr True, matches_open = Inl DOMException,
     elements = [surface\<lparr>el_open := Some True\<rparr>], contains_activeElement = True\<rparr>"

text \<open>An overlay opened with a delay (\<open>delayed\<close>), as a hover tooltip is.\<close>

definition delayed_overlay :: overlay where
  "delayed_overlay = opened_overlay\<lparr>delayed := True\<rparr>"

text \<open>The same overlay opened from a virtual trigger.\<close>

definition virtual_overlay :: overlay where
  "virtual_overlay = opened_overlay\<lparr>triggerElement := Some VirtualTrigger\<rparr>"

text \<open>An overlay closed after it was taken out of the document, its dialog still matching
  \<open>:open\<close>.\<close>

definition detached_overlay :: overlay where
  "detached_overlay = closed_overlay\<lparr>isConnected := False,
     matches_popover_open := Inr False, matches_open := Inr True\<rparr>"

text \<open>The user closes the overlay.\<close>

definition close_request :: "overlay \<Rightarrow> overlay" where
  "close_request w = w\<lparr>open := False\<rparr>"

text \<open>The user opens the overlay.\<close>

definition open_request :: "overlay \<Rightarrow> overlay" where
  "open_request w = w\<lparr>open := True\<rparr>"

section \<open>Schedules and traces\<close>

lemma exec_Nil [simp]: "exec [] c = c"
  by (simp add: exec_def)

lemma exec_Cons [simp]: "exec (s # sch) c = exec sch (step s c)"
  by (simp add: exec_def)

lemma exec_append: "exec (sch @ sch') c = exec sch' (exec sch c)"
  by (simp add: exec_def)

lemma exec_empty_pool:
  "pool c = [] \<Longrightarrow> pool (exec sch c) = [] \<and> trace (exec sch c) = trace c"
proof (induction sch arbitrary: c)
  case Nil
  then show ?case by simp
next
  case (Cons s sch)
  then show ?case by (cases s) simp_all
qed

lemma step_Fire:
  assumes "i < length (pool c)" "pool c ! i = (wt, tk)"
    "resume_task tk v (world c) = (effs, w', new)"
  shows "pool (step (Fire i v) c) = take i (pool c) @ drop (Suc i) (pool c) @ new"
    and "trace (step (Fire i v) c) = trace c @ Awaited wt # effs"
    and "(wt, tk) \<in> set (pool c)"
    and "set (pool (step (Fire i v) c)) \<subseteq> set (pool c) \<union> set new"
proof -
  show "pool (step (Fire i v) c) = take i (pool c) @ drop (Suc i) (pool c) @ new"
    using assms by simp
  show "trace (step (Fire i v) c) = trace c @ Awaited wt # effs"
    using assms by simp
  show "(wt, tk) \<in> set (pool c)"
    using assms(1,2) by (metis nth_mem)
  show "set (pool (step (Fire i v) c)) \<subseteq> set (pool c) \<union> set new"
    using assms by (auto dest: in_set_takeD in_set_dropD)
qed

lemma preceded_append:
  "preceded p q (xs @ ys) = (preceded p q xs \<and> ((\<exists>e \<in> set xs. p e) \<or> preceded p q ys))"
  by (induction xs) auto

lemma preceded_none: "\<forall>e \<in> set xs. \<not> q e \<Longrightarrow> preceded p q xs"
  by (induction xs) auto

lemma never_after_append:
  "never_after p q (xs @ ys) =
     (never_after p q xs \<and> never_after p q ys \<and> \<not> ((\<exists>e \<in> set xs. p e) \<and> (\<exists>e \<in> set ys. q e)))"
  by (induction xs) (auto simp: list_ex_iff)

lemma never_after_none_q: "\<forall>e \<in> set xs. \<not> q e \<Longrightarrow> never_after p q xs"
  by (induction xs) (auto simp: list_ex_iff)

lemma never_after_none_p: "\<forall>e \<in> set xs. \<not> p e \<Longrightarrow> never_after p q xs"
  by (induction xs) (auto simp: list_ex_iff)

section \<open>The first check of the driver\<close>

text \<open>
  Claim C10. In \<open>managePopoverOpen\<close> the check before the delay phase compares
  \<open>this.open\<close> with the snapshot \<open>targetOpenState\<close> taken from it in the same
  synchronous span, so it never aborts: every call enters \<open>manageDelay\<close> with the
  snapshot and stays pending. While the driver is suspended inside the delay phase its
  resumption does not abort either. The check after the delay phase aborts exactly when
  \<open>open\<close> differs from the snapshot by then, so it is the first one that can.
\<close>

theorem managePopoverOpen_first_check_dead:
  "managePopoverOpen w =
     await_phase (open w) In_manageDelay After_manageDelay (manageDelay (open w) w)
   \<and> ending_of (managePopoverOpen w) = Awaiting
   \<and> ending_of (managePopoverOpen_resume t (In_manageDelay p) v w) = Awaiting
   \<and> (ending_of (managePopoverOpen_resume t After_manageDelay v w) = Stale) = (open w \<noteq> t)"
  by (cases p)
    (simp add: managePopoverOpen_def ending_of_def await_phase_def manageDelay_def ensureOnDOM_def)

theorem managePopoverOpen_first_check_dead_witness:
  "ending_of (managePopoverOpen opened_overlay) = Awaiting
   \<and> ending_of (managePopoverOpen_resume True After_manageDelay False closed_overlay) = Stale"
proof -
  have a: "ending_of (managePopoverOpen opened_overlay) = Awaiting"
    using managePopoverOpen_first_check_dead [of opened_overlay] by blast
  have "(ending_of (managePopoverOpen_resume True After_manageDelay False closed_overlay) = Stale)
      = (open closed_overlay \<noteq> True)"
    using managePopoverOpen_first_check_dead [of closed_overlay True Delay_openTimer False]
    by blast
  then have b:
    "ending_of (managePopoverOpen_resume True After_manageDelay False closed_overlay) = Stale"
    by (simp add: closed_overlay_def)
  from a b show ?thesis by blast
qed

section \<open>Cancelling a delayed open\<close>

text \<open>
  Against claim C5 as stated: a delayed open whose timer resolves as cancelled after a
  close request. The delay phase sets \<open>open\<close> to false, but the overlay is opened
  again before the driver's check after the phase; the check finds \<open>open\<close> equal to
  the target, the run goes on, and \<open>sp-opened\<close> is dispatched for that attempt.
\<close>

theorem manageDelay_cancelled_then_reopened_counterexample:
  "open (world (exec [Env close_request, Fire 0 True] (invoke delayed_overlay))) = False
 \<and> trace (exec [Env close_request, Fire 0 True, Env open_request,
                Fire 0 False, Fire 0 False, Fire 0 False, Fire 0 False, Fire 0 False,
                Fire 0 False, Fire 2 False]
           (invoke delayed_overlay)) =
     [OpenTimer, Awaited Timer, SetOpen False, Awaited Microtask, Awaited Frame,
      ShowPopover, ManagePosition, Awaited Position, Awaited Frame, Awaited Microtask,
      StartCallback 0, SetElOpen 0 True, Dispatch Root BeforetoggleOpenEvent,
      StartCallback 1, Awaited (Transitionend 0), Awaited Frame,
      Dispatch Root (Event ''sp-opened'' False False),
      Dispatch (Element 0) (Event ''sp-opened'' False False),
      Dispatch TriggerNode (CustomEvent ''sp-opened'' True True ''auto'')]"
  by (simp add: invoke_def managePopoverOpen_def manageDelay_def await_phase_def
      ensureOnDOM_def try_matches_def makeTransition_def guaranteedAllTransitionend_def
      start_def finish_def reportChange_def reportChange_resume_def eventName_def
      close_request_def open_request_def delayed_overlay_def opened_overlay_def
      surface_def tooltip_def enumerate_eq_zip upt_rec Let_def)

text \<open>
  Claim C5, amended. A call of \<open>managePopoverOpen\<close> on an open, delayed overlay starts
  the open timer and waits for it. When the timer resolves as cancelled, whatever the
  page did to the overlay meanwhile (\<open>g\<close>, the close request), the delay phase sets
  \<open>open\<close> to the inverse of the target, false, and dispatches nothing. What follows
  depends on \<open>open\<close> when the driver resumes after the phase (\<open>f\<close> is what the page
  did in between). If it is still false the run ends there: under every further
  schedule its trace stays without any dispatch, and no task of it is left. If the
  overlay was opened again the run goes on into the DOM-attach phase. On a close
  target, or a target that differs from \<open>open\<close>, the delay phase cancels the pending
  timer and returns without writing \<open>open\<close>.
\<close>

theorem manageDelay_cancelled_reverts_open:
  "(open w \<and> delayed w \<longrightarrow>
      invoke w = \<lparr>world = w, pool = [(Timer, Driver True (In_manageDelay Delay_openTimer))],
                  trace = [OpenTimer]\<rparr>
    \<and> exec [Env g, Fire 0 True] (invoke w) =
        \<lparr>world = (g w)\<lparr>open := False\<rparr>, pool = [(Microtask, Driver True After_manageDelay)],
         trace = [OpenTimer, Awaited Timer, SetOpen False]\<rparr>
    \<and> (\<not> open (f ((g w)\<lparr>open := False\<rparr>)) \<longrightarrow>
         trace (exec ([Env g, Fire 0 True, Env f, Fire 0 v] @ sch) (invoke w)) =
           [OpenTimer, Awaited Timer, SetOpen False, Awaited Microtask]
       \<and> pool (exec ([Env g, Fire 0 True, Env f, Fire 0 v] @ sch) (invoke w)) = [])
    \<and> (open (f ((g w)\<lparr>open := False\<rparr>)) \<longrightarrow>
         exec [Env g, Fire 0 True, Env f, Fire 0 v] (invoke w) =
           \<lparr>world = f ((g w)\<lparr>open := False\<rparr>),
            pool = [(Frame, Driver True (In_ensureOnDOM Dom_nextFrame1))],
            trace = [OpenTimer, Awaited Timer, SetOpen False, Awaited Microtask]\<rparr>))
 \<and> (t = False \<or> t \<noteq> open w \<longrightarrow> manageDelay t w = ([TimerClose], w, Returned))"
proof -
  have 1: "t = False \<or> t \<noteq> open w \<longrightarrow> manageDelay t w = ([TimerClose], w, Returned)"
    by (simp add: manageDelay_def)
  have 2: "invoke w = \<lparr>world = w, pool = [(Timer, Driver True (In_manageDelay Delay_openTimer))],
                  trace = [OpenTimer]\<rparr>" if "open w" "delayed w"
    using that by (simp add: invoke_def managePopoverOpen_def manageDelay_def await_phase_def)
  have 3: "exec [Env g, Fire 0 True] (invoke w) =
        \<lparr>world = (g w)\<lparr>open := False\<rparr>, pool = [(Microtask, Driver True After_manageDelay)],
         trace = [OpenTimer, Awaited Timer, SetOpen False]\<rparr>" if "open w" "delayed w"
    by (simp add: 2 [OF that] await_phase_def)
  have 4: "trace (exec ([Env g, Fire 0 True, Env f, Fire 0 v] @ sch) (invoke w)) =
           [OpenTimer, Awaited Timer, SetOpen False, Awaited Microtask]
       \<and> pool (exec ([Env g, Fire 0 True, Env f, Fire 0 v] @ sch) (invoke w)) = []"
    if "open w" "delayed w" "\<not> open (f ((g w)\<lparr>open := False\<rparr>))"
  proof -
    let ?c = "\<lparr>world = f ((g w)\<lparr>open := False\<rparr>), pool = [],
         trace = [OpenTimer, Awaited Timer, SetOpen False, Awaited Microtask]\<rparr>"
    have "exec [Env g, Fire 0 True, Env f, Fire 0 v] (invoke w) = ?c"
      using that(3) by (simp add: 2 [OF that(1,2)] await_phase_def)
    then have "exec ([Env g, Fire 0 True, Env f, Fire 0 v] @ sch) (invoke w) = exec sch ?c"
      by (simp only: exec_append)
    moreover have "pool (exec sch ?c) = [] \<and> trace (exec sch ?c) = trace ?c"
      by (rule exec_empty_pool) simp
    ultimately show ?thesis by simp
  qed
  have 5: "exec [Env g, Fire 0 True, Env f, Fire 0 v] (invoke w) =
           \<lparr>world = f ((g w)\<lparr>open := False\<rparr>),
            pool = [(Frame, Driver True (In_ensureOnDOM Dom_nextFrame1))],
            trace = [OpenTimer, Awaited Timer, SetOpen False, Awaited Microtask]\<rparr>"
    if "open w" "delayed w" "open (f ((g w)\<lparr>open := False\<rparr>))"
    using that(3) by (simp add: 2 [OF that(1,2)] await_phase_def ensureOnDOM_def)
  from 1 2 3 4 5 show ?thesis by blast
qed

theorem manageDelay_cancelled_reverts_open_witness:
  "exec [Env close_request, Fire 0 True] (invoke delayed_overlay) =
        \<lparr>world = (close_request delayed_overlay)\<lparr>open := False\<rparr>,
         pool = [(Microtask, Driver True After_manageDelay)],
         trace = [OpenTimer, Awaited Timer, SetOpen False]\<rparr>
 \<and> trace (exec ([Env close_request, Fire 0 True, Env (\<lambda>w. w), Fire 0 False]
            @ [Fire 0 False]) (invoke delayed_overlay)) =
           [OpenTimer, Awaited Timer, SetOpen False, Awaited Microtask]
 \<and> exec [Env close_request, Fire 0 True, Env open_request, Fire 0 False]
       (invoke delayed_overlay) =
           \<lparr>world = open_request ((close_request delayed_overlay)\<lparr>open := False\<rparr>),
            pool = [(Frame, Driver True (In_ensureOnDOM Dom_nextFrame1))],
            trace = [OpenTimer, Awaited Timer, SetOpen False, Awaited Microtask]\<rparr>"
proof -
  have h: "open delayed_overlay \<and> delayed delayed_overlay"
    by (simp add: delayed_overlay_def opened_overlay_def)
  note inst = mp [OF conjunct1 [OF manageDelay_cancelled_reverts_open
    [where w = delayed_overlay and g = close_request and f = "\<lambda>w. w"
       and v = False and sch = "[Fire 0 False]" and t = False]] h]
  note inst' = mp [OF conjunct1 [OF manageDelay_cancelled_reverts_open
    [where w = delayed_overlay and g = close_request and f = open_request
       and v = False and sch = "[]" and t = False]] h]
  have h1: "\<not> open ((\<lambda>w. w) ((close_request delayed_overlay)\<lparr>open := False\<rparr>))"
    by simp
  have h2: "open (open_request ((close_request delayed_overlay)\<lparr>open := False\<rparr>))"
    by (simp add: open_request_def)
  note a = conjunct1 [OF conjunct2 [OF inst]]
  note b = conjunct1 [OF mp [OF conjunct1 [OF conjunct2 [OF conjunct2 [OF inst]]] h1]]
  note c = mp [OF conjunct2 [OF conjunct2 [OF conjunct2 [OF inst']]] h2]
  from a b c show ?thesis by (intro conjI)
qed

section \<open>Presenting the surface\<close>

text \<open>
  Claim C6. \<open>ensureOnDOM\<close> does nothing before its first frame. Let \<open>f1\<close> be what
  the page does to the overlay during that frame. If then the target is open,
  \<open>open\<close> equals the target, neither probe answers true and the overlay is connected,
  the phase calls \<open>showPopover\<close>, then \<open>managePosition\<close>, awaits it, awaits one more
  frame and returns. In every other case it calls neither, awaits one more frame and
  returns.
\<close>

theorem ensureOnDOM_presents_iff:
  "ensureOnDOM t w = ([], w, Suspended Frame Dom_nextFrame1)
 \<and> (t \<and> open (f1 w) = t \<and> matches_popover_open (f1 w) \<noteq> Inr True
      \<and> matches_open (f1 w) \<noteq> Inr True \<and> isConnected (f1 w) \<longrightarrow>
    run_phase (ensureOnDOM_resume t) ((f1, v1) # (f2, v2) # (f3, v3) # env) (ensureOnDOM t w) =
      ([Awaited Frame, ShowPopover, ManagePosition, Awaited Position, Awaited Frame],
       f3 (f2 (f1 w)), Returned))
 \<and> (\<not> (t \<and> open (f1 w) = t \<and> matches_popover_open (f1 w) \<noteq> Inr True
         \<and> matches_open (f1 w) \<noteq> Inr True \<and> isConnected (f1 w)) \<longrightarrow>
    run_phase (ensureOnDOM_resume t) ((f1, v1) # (f2, v2) # env) (ensureOnDOM t w) =
      ([Awaited Frame, Awaited Frame], f2 (f1 w), Returned))"
proof -
  have p: "\<And>r. try_matches r = (r = Inr True)"
    by (simp add: try_matches_def split: sum.splits)
  show ?thesis
    by (simp add: ensureOnDOM_def p)
qed

theorem ensureOnDOM_presents_iff_witness:
  "run_phase (ensureOnDOM_resume True) [(\<lambda>w. w, False), (\<lambda>w. w, False), (\<lambda>w. w, False)]
     (ensureOnDOM True opened_overlay) =
      ([Awaited Frame, ShowPopover, ManagePosition, Awaited Position, Awaited Frame],
       opened_overlay, Returned)
 \<and> run_phase (ensureOnDOM_resume False) [(\<lambda>w. w, False), (\<lambda>w. w, False)]
     (ensureOnDOM False closed_overlay) =
      ([Awaited Frame, Awaited Frame], closed_overlay, Returned)"
proof -
  have h: "True \<and> open ((\<lambda>w. w) opened_overlay) = True
      \<and> matches_popover_open ((\<lambda>w. w) opened_overlay) \<noteq> Inr True
      \<and> matches_open ((\<lambda>w. w) opened_overlay) \<noteq> Inr True
      \<and> isConnected ((\<lambda>w. w) opened_overlay)"
    by (simp add: opened_overlay_def)
  note a = mp [OF conjunct1 [OF conjunct2 [OF ensureOnDOM_presents_iff
    [where t = True and w = opened_overlay and ?f1.0 = "\<lambda>w. w" and ?f2.0 = "\<lambda>w. w"
       and ?f3.0 = "\<lambda>w. w" and ?v1.0 = False and ?v2.0 = False and ?v3.0 = False
       and env = "[]"]]] h]
  have h': "\<not> (False \<and> open ((\<lambda>w. w) closed_overlay) = False
      \<and> matches_popover_open ((\<lambda>w. w) closed_overlay) \<noteq> Inr True
      \<and> matches_open ((\<lambda>w. w) closed_overlay) \<noteq> Inr True
      \<and> isConnected ((\<lambda>w. w) closed_overlay))"
    by simp
  note b = mp [OF conjunct2 [OF conjunct2 [OF ensureOnDOM_presents_iff
    [where t = False and w = closed_overlay and ?f1.0 = "\<lambda>w. w" and ?f2.0 = "\<lambda>w. w"
       and ?v1.0 = False and ?v2.0 = False and env = "[]"]]] h']
  from a b show ?thesis by (rule conjI)
qed

section \<open>Probes that throw\<close>

text \<open>
  Claim C8. Both presentation probes, in the DOM-attach phase and in the completion
  callback, are wrapped in \<open>try { ... } catch (error) {}\<close> around a variable
  initialised to \<open>false\<close>: a probe that throws yields \<open>false\<close>, and the span goes
  on exactly as it does when that probe answers "not presented". The spans return
  effects and tasks only, so nothing of the failure reaches the caller.
\<close>

theorem probe_failure_reads_as_not_presented:
  "try_matches (Inl e) = False
 \<and> (matches_popover_open w = Inl e \<longrightarrow>
      ensureOnDOM_resume t Dom_nextFrame1 v w =
        (case ensureOnDOM_resume t Dom_nextFrame1 v (w\<lparr>matches_popover_open := Inr False\<rparr>) of
           (effs, w', st) \<Rightarrow> (effs, w, st))
    \<and> finish t index w = finish t index (w\<lparr>matches_popover_open := Inr False\<rparr>))
 \<and> (matches_open w = Inl e \<longrightarrow>
      ensureOnDOM_resume t Dom_nextFrame1 v w =
        (case ensureOnDOM_resume t Dom_nextFrame1 v (w\<lparr>matches_open := Inr False\<rparr>) of
           (effs, w', st) \<Rightarrow> (effs, w, st))
    \<and> finish t index w = finish t index (w\<lparr>matches_open := Inr False\<rparr>))"
  by (simp add: try_matches_def finish_def reportChange_def Let_def)

theorem probe_failure_reads_as_not_presented_witness:
  "matches_open opened_overlay = Inl DOMException
 \<and> ensureOnDOM_resume True Dom_nextFrame1 False opened_overlay =
     ([ShowPopover, ManagePosition], opened_overlay, Suspended Position Dom_managePosition)
 \<and> finish False 0 closed_overlay =
     ([AddEventListener ''beforetoggle'', HidePopover], [(Beforetoggle, Listener False 0)])"
proof -
  note inst = probe_failure_reads_as_not_presented [where e = DOMException and v = False]
  have a: "matches_open opened_overlay = Inl DOMException"
    by (simp add: opened_overlay_def)
  have b: "ensureOnDOM_resume True Dom_nextFrame1 False opened_overlay =
        (case ensureOnDOM_resume True Dom_nextFrame1 False
                (opened_overlay\<lparr>matches_open := Inr False\<rparr>) of
           (effs, w', st) \<Rightarrow> (effs, opened_overlay, st))"
    by (rule conjunct1 [OF mp [OF conjunct2 [OF conjunct2 [OF inst]] a]])
  have a': "matches_open closed_overlay = Inl DOMException"
    by (simp add: closed_overlay_def)
  have c: "finish False 0 closed_overlay = finish False 0 (closed_overlay\<lparr>matches_open := Inr False\<rparr>)"
    by (rule conjunct2 [OF mp [OF conjunct2 [OF conjunct2 [OF inst]] a']])
  have d: "finish False 0 (closed_overlay\<lparr>matches_open := Inr False\<rparr>) =
     ([AddEventListener ''beforetoggle'', HidePopover], [(Beforetoggle, Listener False 0)])"
    by (simp add: finish_def closed_overlay_def try_matches_def)
  from b have b': "ensureOnDOM_resume True Dom_nextFrame1 False opened_overlay =
     ([ShowPopover, ManagePosition], opened_overlay, Suspended Position Dom_managePosition)"
    by (simp add: opened_overlay_def try_matches_def)
  from a b' c d show ?thesis by simp
qed

section \<open>What \<open>reportChange\<close> dispatches\<close>

text \<open>
  Against claim C2 as stated: with a real trigger element the event \<open>reportChange\<close>
  dispatches on the overlay is neither bubbling nor composed, and with a virtual
  trigger it is both.
\<close>

theorem reportChange_root_event_counterexample:
  "triggerElement opened_overlay = Some HTMLElement
 \<and> reportChange_resume True 0 opened_overlay =
     [Dispatch Root (Event ''sp-opened'' False False),
      Dispatch (Element 0) (Event ''sp-opened'' False False),
      Dispatch TriggerNode (CustomEvent ''sp-opened'' True True ''auto'')]
 \<and> triggerElement virtual_overlay = Some VirtualTrigger
 \<and> reportChange_resume True 0 virtual_overlay =
     [Dispatch Root (Event ''sp-opened'' True True),
      Dispatch (Element 0) (Event ''sp-opened'' False False)]"
  by (simp add: reportChange_resume_def eventName_def opened_overlay_def virtual_overlay_def)

text \<open>
  Claim C2, amended. \<open>reportChange\<close> dispatches \<open>sp-opened\<close> (open target) or
  \<open>sp-closed\<close> (close target). The event on the overlay is bubbling and composed
  exactly when the trigger is a \<open>VirtualTrigger\<close>, and neither otherwise. The event
  on the element is never bubbling or composed. A bubbling, composed event carrying
  \<open>{ interaction: this.type }\<close> is dispatched on the trigger exactly when the trigger
  is a real element; nothing is dispatched on a virtual or absent trigger.
\<close>

theorem reportChange_events:
  "reportChange_resume t index w =
     (case triggerElement w of
        Some VirtualTrigger \<Rightarrow>
          [Dispatch Root (Event (eventName t) True True),
           Dispatch (Element index) (Event (eventName t) False False)]
      | Some HTMLElement \<Rightarrow>
          [Dispatch Root (Event (eventName t) False False),
           Dispatch (Element index) (Event (eventName t) False False),
           Dispatch TriggerNode (CustomEvent (eventName t) True True (type w))]
      | None \<Rightarrow>
          [Dispatch Root (Event (eventName t) False False),
           Dispatch (Element index) (Event (eventName t) False False)])
 \<and> eventName t = (if t then ''sp-opened'' else ''sp-closed'')"
  by (simp add: reportChange_resume_def eventName_def split: option.splits trigger.splits)

theorem reportChange_events_witness:
  "reportChange_resume False 0 closed_overlay =
     [Dispatch Root (Event ''sp-closed'' False False),
      Dispatch (Element 0) (Event ''sp-closed'' False False),
      Dispatch TriggerNode (CustomEvent ''sp-closed'' True True ''auto'')]"
proof -
  note a = conjunct1 [OF reportChange_events [where t = False and index = 0 and w = closed_overlay]]
  note b = conjunct2 [OF reportChange_events [where t = False and index = 0 and w = closed_overlay]]
  from a b show ?thesis by (simp add: closed_overlay_def)
qed

section \<open>Hiding before reporting on close\<close>


lemma finish_hides:
  assumes "\<not> open w" "matches_popover_open w = Inr True \<or> matches_open w = Inr True"
    "isConnected w"
  shows "finish False 0 w =
    ([AddEventListener ''beforetoggle'', HidePopover], [(Beforetoggle, Listener False 0)])"
  using assms by (auto simp: finish_def try_matches_def)

lemma hide_step:
  assumes "(pool c = [(Beforetoggle, Listener False 0)] \<and> trace c = T)
     \<or> (pool c = [(Frame, Report False 0)] \<and> trace c = T @ [Awaited Beforetoggle])
     \<or> (pool c = [] \<and> (\<exists>rest. trace c = T @ Awaited Beforetoggle # rest))"
  shows "(pool (step s c) = [(Beforetoggle, Listener False 0)] \<and> trace (step s c) = T)
     \<or> (pool (step s c) = [(Frame, Report False 0)] \<and> trace (step s c) = T @ [Awaited Beforetoggle])
     \<or> (pool (step s c) = [] \<and> (\<exists>rest. trace (step s c) = T @ Awaited Beforetoggle # rest))"
proof (cases s)
  case (Env f)
  with assms show ?thesis by simp
next
  case (Fire i v)
  from assms consider
      (listener) "pool c = [(Beforetoggle, Listener False 0)]" "trace c = T"
    | (report) "pool c = [(Frame, Report False 0)]" "trace c = T @ [Awaited Beforetoggle]"
    | (finished) "pool c = []" "\<exists>rest. trace c = T @ Awaited Beforetoggle # rest"
    by blast
  then show ?thesis
  proof cases
    case listener
    with Fire show ?thesis by (cases i) (simp_all add: reportChange_def)
  next
    case report
    with Fire show ?thesis by (cases i) simp_all
  next
    case finished
    with Fire show ?thesis by simp
  qed
qed

lemma hide_exec:
  assumes "(pool c = [(Beforetoggle, Listener False 0)] \<and> trace c = T)
     \<or> (pool c = [(Frame, Report False 0)] \<and> trace c = T @ [Awaited Beforetoggle])
     \<or> (pool c = [] \<and> (\<exists>rest. trace c = T @ Awaited Beforetoggle # rest))"
  shows "trace (exec sch c) = T \<or> (\<exists>rest. trace (exec sch c) = T @ Awaited Beforetoggle # rest)"
  using assms
proof (induction sch arbitrary: c)
  case Nil
  then show ?case by auto
next
  case (Cons s sch)
  from hide_step [OF Cons.prems] show ?case
    unfolding exec_Cons by (rule Cons.IH)
qed



section \<open>The order of an opening run\<close>

lemma root_is_opened: "root_opened e \<Longrightarrow> is_opened e"
  by (cases e rule: root_opened.cases) simp_all

lemma local_is_opened: "local_opened e \<Longrightarrow> is_opened e"
  by (cases e rule: local_opened.cases) simp_all

lemma trigger_is_opened: "trigger_opened e \<Longrightarrow> is_opened e"
  by (cases e rule: trigger_opened.cases) simp_all

lemma opening_order_quiet:
  assumes "\<forall>e \<in> set tr. \<not> is_completion e \<and> \<not> is_opened e"
  shows "opening_order tr"
  unfolding opening_order_def
  using assms
  by (intro conjI preceded_none never_after_none_p)
    (auto dest: root_is_opened local_is_opened trigger_is_opened)

lemma start_effects:
  assumes "start True el index s = (effs, s')"
  shows "(\<forall>e \<in> set effs. \<not> is_start e \<and> \<not> is_completion e \<and> \<not> is_opened e)
     \<and> (index = 0 \<longrightarrow> Dispatch Root BeforetoggleOpenEvent \<in> set effs)"
  using assms by (cases s) (auto simp: start_def Let_def split: if_splits)

lemma forEach_elements_effects:
  assumes "forEach_elements True xs s = (effs, s', tasks)"
  shows "(\<forall>e \<in> set effs. \<not> is_completion e \<and> \<not> is_opened e)
     \<and> tasks = map (\<lambda>x. (Transitionend (fst x), Finish True (fst x))) xs
     \<and> filter is_start effs = map (\<lambda>x. StartCallback (fst x)) xs
     \<and> ((\<exists>el rest. xs = (0, el) # rest) \<longrightarrow> Dispatch Root BeforetoggleOpenEvent \<in> set effs)"
  using assms
proof (induction xs arbitrary: s effs s' tasks)
  case Nil
  then show ?case by simp
next
  case (Cons x xs)
  obtain index el where x: "x = (index, el)" by (cases x)
  obtain e1 s1 where s: "start True el index s = (e1, s1)"
    by (cases "start True el index s")
  obtain e2 s2 t2 where r: "forEach_elements True xs s1 = (e2, s2, t2)"
    by (cases "forEach_elements True xs s1")
  from Cons.prems x s r
  have eq: "effs = StartCallback index # e1 @ e2"
    "tasks = (Transitionend index, Finish True index) # t2"
    by (simp_all add: guaranteedAllTransitionend_def)
  from start_effects [OF s]
  have 1: "\<forall>e \<in> set e1. \<not> is_start e \<and> \<not> is_completion e \<and> \<not> is_opened e"
    and 2: "index = 0 \<longrightarrow> Dispatch Root BeforetoggleOpenEvent \<in> set e1"
    by simp_all
  from 1 have 3: "filter is_start e1 = []" by (simp add: filter_empty_conv)
  from Cons.IH [OF r] 1 2 3 eq x show ?case by auto
qed

lemma map_fst_enumerate0: "map (\<lambda>x. g (fst x)) (enumerate 0 xs) = map g [0..<length xs]"
proof -
  have "map (\<lambda>x. g (fst x)) (enumerate 0 xs) = map g (map fst (enumerate 0 xs))"
    by (simp only: map_map comp_def)
  also have "map fst (enumerate 0 xs) = [0..<0 + length xs]"
    by (rule map_fst_enumerate)
  finally show ?thesis by simp
qed

lemma makeTransition_effects:
  assumes "open w" "makeTransition True w = (effs, w', f, tasks)"
  shows "(\<forall>e \<in> set effs. \<not> is_completion e \<and> \<not> is_opened e)
     \<and> tasks = map (\<lambda>i. (Transitionend i, Finish True i)) [0..<length (elements w)]
     \<and> filter is_start effs = map StartCallback [0..<length (elements w)]
     \<and> (tasks \<noteq> [] \<longrightarrow> Dispatch Root BeforetoggleOpenEvent \<in> set effs)"
proof -
  obtain s' where fe: "forEach_elements True (enumerate 0 (elements w)) (w, None) = (effs, s', tasks)"
    using assms by (auto simp: makeTransition_def split: prod.splits)
  note facts = forEach_elements_effects [OF fe]
  from facts have 1: "\<forall>e \<in> set effs. \<not> is_completion e \<and> \<not> is_opened e"
    by blast
  from facts have 2: "tasks = map (\<lambda>i. (Transitionend i, Finish True i)) [0..<length (elements w)]"
    by (simp only: map_fst_enumerate0 [of "\<lambda>i. (Transitionend i, Finish True i)"])
  from facts have 3: "filter is_start effs = map StartCallback [0..<length (elements w)]"
    by (simp only: map_fst_enumerate0 [of StartCallback])
  have "tasks \<noteq> [] \<longrightarrow> (\<exists>el rest. enumerate 0 (elements w) = (0, el) # rest)"
    using 2 by (cases "elements w") auto
  with facts have 4: "tasks \<noteq> [] \<longrightarrow> Dispatch Root BeforetoggleOpenEvent \<in> set effs"
    by blast
  from 1 2 3 4 show ?thesis by blast
qed

lemma post_resume:
  assumes "post_task (wt, tk)" "resume_task tk v w = (effs, w', new)"
  shows "(\<forall>x \<in> set new. post_task x)
     \<and> (\<forall>e \<in> set effs. \<not> is_start e)
     \<and> (is_driver tk \<longrightarrow> (\<forall>x \<in> set new. is_driver (snd x)) \<and> (\<forall>e \<in> set effs. \<not> is_opened e))
     \<and> (\<forall>wt'. (wt', Report True 0) \<in> set new \<longrightarrow> tk = Finish True 0)
     \<and> ((\<forall>e \<in> set effs. \<not> root_opened e \<and> \<not> local_opened e \<and> \<not> trigger_opened e)
         \<or> (tk = Report True 0
             \<and> preceded root_opened local_opened effs
             \<and> preceded local_opened trigger_opened effs))"
proof (cases tk)
  case (Driver t pt)
  with assms show ?thesis
  proof (cases pt)
    case (After_makeTransition fe)
    with Driver assms show ?thesis
      by (auto simp: applyFocus_def await_last_def split: if_splits)
  next
    case (In_applyFocus fe p)
    with Driver assms show ?thesis
      by (cases p) (auto simp: await_last_def split: if_splits option.splits)
  qed simp_all
next
  case (Finish t i)
  with assms show ?thesis
    by (auto simp: finish_def reportChange_def eventName_def Let_def split: if_splits)
next
  case (Listener t i)
  with assms show ?thesis by simp
next
  case (Report t i)
  with assms show ?thesis
    by (auto simp: reportChange_resume_def eventName_def Let_def)
qed

lemma in_transition_step:
  assumes "in_transition c"
  shows "in_transition (step s c)"
proof (cases s)
  case (Env g)
  with assms show ?thesis by (simp add: in_transition_def)
next
  case (Fire i v)
  show ?thesis
  proof (cases "i < length (pool c)")
    case False
    with Fire assms show ?thesis by simp
  next
    case True
    obtain wt tk where x: "pool c ! i = (wt, tk)" by (cases "pool c ! i")
    obtain effs w' new where r: "resume_task tk v (world c) = (effs, w', new)"
      by (cases "resume_task tk v (world c)")
    define c' where "c' = step (Fire i v) c"
    note st = step_Fire [OF True x r, folded c'_def]
    let ?B = "Dispatch Root BeforetoggleOpenEvent"
    from assms have
      P1: "\<forall>x \<in> set (pool c). post_task x" and
      P2: "(\<forall>x \<in> set (pool c). is_driver (snd x)) \<or> ?B \<in> set (trace c)" and
      P3: "(\<exists>wt. (wt, Report True 0) \<in> set (pool c)) \<longrightarrow> Awaited (Transitionend 0) \<in> set (trace c)" and
      P4: "opening_order (trace c)"
      by (simp_all add: in_transition_def)
    from P1 st(3) have pt: "post_task (wt, tk)" by blast
    note pr = post_resume [OF pt r]
    from pr have
      R1: "\<forall>x \<in> set new. post_task x" and
      R2: "\<forall>e \<in> set effs. \<not> is_start e" and
      R3: "is_driver tk \<longrightarrow> (\<forall>x \<in> set new. is_driver (snd x)) \<and> (\<forall>e \<in> set effs. \<not> is_opened e)" and
      R4: "\<forall>wt'. (wt', Report True 0) \<in> set new \<longrightarrow> tk = Finish True 0" and
      R5: "(\<forall>e \<in> set effs. \<not> root_opened e \<and> \<not> local_opened e \<and> \<not> trigger_opened e)
         \<or> (tk = Report True 0
             \<and> preceded root_opened local_opened effs
             \<and> preceded local_opened trigger_opened effs)"
      by blast+
    have Q1: "\<forall>x \<in> set (pool c'). post_task x"
      using P1 R1 st(4) by blast
    have Q2: "(\<forall>x \<in> set (pool c'). is_driver (snd x)) \<or> ?B \<in> set (trace c')"
    proof (cases "?B \<in> set (trace c)")
      case True
      then show ?thesis by (simp add: st(2))
    next
      case False
      with P2 have d: "\<forall>x \<in> set (pool c). is_driver (snd x)" by blast
      with st(3) have "is_driver tk" by force
      with R3 have "\<forall>x \<in> set new. is_driver (snd x)" by blast
      with d st(4) show ?thesis by blast
    qed
    have Q3: "(\<exists>wt. (wt, Report True 0) \<in> set (pool c'))
        \<longrightarrow> Awaited (Transitionend 0) \<in> set (trace c')"
    proof
      assume "\<exists>wt. (wt, Report True 0) \<in> set (pool c')"
      then obtain wt' where "(wt', Report True 0) \<in> set (pool c')" ..
      with st(4) consider "(wt', Report True 0) \<in> set (pool c)" | "(wt', Report True 0) \<in> set new"
        by blast
      then show "Awaited (Transitionend 0) \<in> set (trace c')"
      proof cases
        case 1
        with P3 show ?thesis by (auto simp: st(2))
      next
        case 2
        with R4 have "tk = Finish True 0" by blast
        with pt have "wt = Transitionend 0" by simp
        then show ?thesis by (simp add: st(2))
      qed
    qed
    have seg_start: "\<forall>e \<in> set (Awaited wt # effs). \<not> is_start e"
      using R2 by simp
    have G1: "preceded (\<lambda>e. e = ?B) is_opened (trace c')"
    proof (cases "?B \<in> set (trace c)")
      case True
      with P4 show ?thesis
        by (auto simp: st(2) preceded_append opening_order_def)
    next
      case False
      with P2 st(3) have "is_driver tk" by force
      with R3 have "\<forall>e \<in> set (Awaited wt # effs). \<not> is_opened e" by simp
      then have "preceded (\<lambda>e. e = ?B) is_opened (Awaited wt # effs)"
        by (rule preceded_none)
      with P4 show ?thesis
        by (simp add: st(2) preceded_append opening_order_def)
    qed
    have G2: "never_after is_completion is_start (trace c')"
      using P4 seg_start never_after_none_q [OF seg_start, of is_completion]
      by (auto simp: st(2) never_after_append opening_order_def)
    have G345: "preceded (\<lambda>e. e = Awaited (Transitionend 0)) root_opened (trace c')
        \<and> preceded root_opened local_opened (trace c')
        \<and> preceded local_opened trigger_opened (trace c')"
      using R5
    proof
      assume "\<forall>e \<in> set effs. \<not> root_opened e \<and> \<not> local_opened e \<and> \<not> trigger_opened e"
      then have n: "\<forall>e \<in> set (Awaited wt # effs). \<not> root_opened e"
        "\<forall>e \<in> set (Awaited wt # effs). \<not> local_opened e"
        "\<forall>e \<in> set (Awaited wt # effs). \<not> trigger_opened e"
        by simp_all
      from P4 preceded_none [OF n(1), of "\<lambda>e. e = Awaited (Transitionend 0)"]
        preceded_none [OF n(2), of root_opened] preceded_none [OF n(3), of local_opened]
      show ?thesis
        by (simp add: st(2) preceded_append opening_order_def)
    next
      assume a: "tk = Report True 0
             \<and> preceded root_opened local_opened effs
             \<and> preceded local_opened trigger_opened effs"
      with st(3) P3 have t0: "Awaited (Transitionend 0) \<in> set (trace c)" by blast
      from a have "preceded root_opened local_opened (Awaited wt # effs)"
        "preceded local_opened trigger_opened (Awaited wt # effs)"
        by simp_all
      with P4 t0 show ?thesis
        by (auto simp: st(2) preceded_append opening_order_def)
    qed
    from G1 G2 G345 have Q4: "opening_order (trace c')"
      by (simp add: opening_order_def)
    from Q1 Q2 Q3 Q4 have "in_transition c'"
      unfolding in_transition_def by blast
    then show ?thesis by (simp only: Fire c'_def)
  qed
qed

lemma in_transition_done:
  assumes "pool c = []" "\<forall>e \<in> set (trace c). \<not> is_completion e \<and> \<not> is_opened e"
  shows "in_transition c"
  using assms opening_order_quiet [of "trace c"] by (simp add: in_transition_def)

lemma before_transition_step:
  assumes "before_transition c"
  shows "before_transition (step s c) \<or> in_transition (step s c)"
proof (cases s)
  case (Env g)
  with assms show ?thesis by (simp add: before_transition_def)
next
  case (Fire i v)
  from assms obtain wt pt where
    p: "pool c = [(wt, Driver True pt)]" and pre: "pre_transition pt" and
    wt: "\<not> is_completion (Awaited wt)" and
    q: "\<forall>e \<in> set (trace c). \<not> is_start e \<and> \<not> is_completion e \<and> \<not> is_opened e"
    unfolding before_transition_def by blast
  show ?thesis
  proof (cases i)
    case (Suc j)
    with Fire p assms show ?thesis by simp
  next
    case 0
    define c' where "c' = step (Fire 0 v) c"
    have goal: "before_transition c' \<or> in_transition c'"
    proof (cases pt)
      case (In_manageDelay dp)
      with p q wt have "before_transition c'"
        by (cases dp) (simp add: c'_def before_transition_def await_phase_def)
      then show ?thesis ..
    next
      case After_manageDelay
      show ?thesis
      proof (cases "open (world c)")
        case True
        with After_manageDelay p q wt have "before_transition c'"
          by (simp add: c'_def before_transition_def await_phase_def ensureOnDOM_def)
        then show ?thesis ..
      next
        case False
        with After_manageDelay p q wt have "in_transition c'"
          by (intro in_transition_done) (simp_all add: c'_def)
        then show ?thesis ..
      qed
    next
      case (In_ensureOnDOM dp)
      with p q wt have "before_transition c'"
        by (cases dp) (simp_all add: c'_def before_transition_def await_phase_def Let_def)
      then show ?thesis ..
    next
      case After_ensureOnDOM
      show ?thesis
      proof (cases "open (world c)")
        case False
        with After_ensureOnDOM p q wt have "in_transition c'"
          by (intro in_transition_done) (simp_all add: c'_def)
        then show ?thesis ..
      next
        case True
        obtain effs w' f tasks where m: "makeTransition True (world c) = (effs, w', f, tasks)"
          by (cases "makeTransition True (world c)")
        note me = makeTransition_effects [OF True m]
        from me have
          e1: "\<forall>e \<in> set effs. \<not> is_completion e \<and> \<not> is_opened e" and
          e2: "tasks = map (\<lambda>i. (Transitionend i, Finish True i)) [0..<length (elements (world c))]" and
          e4: "tasks \<noteq> [] \<longrightarrow> Dispatch Root BeforetoggleOpenEvent \<in> set effs"
          by blast+
        from After_ensureOnDOM p True m have
          pool': "pool c' = tasks @ [(Microtask, Driver True (After_makeTransition f))]" and
          trace': "trace c' = trace c @ Awaited wt # effs"
          by (simp_all add: c'_def)
        from e2 have t1: "\<forall>x \<in> set tasks. post_task x" by auto
        from e2 have t3: "\<forall>wt'. (wt', Report True 0) \<notin> set tasks" by auto
        have Q1: "\<forall>x \<in> set (pool c'). post_task x"
          using t1 by (simp add: pool')
        have Q2: "(\<forall>x \<in> set (pool c'). is_driver (snd x))
            \<or> Dispatch Root BeforetoggleOpenEvent \<in> set (trace c')"
          using e4 by (cases "tasks = []") (simp_all add: pool' trace')
        have Q3: "(\<exists>wt. (wt, Report True 0) \<in> set (pool c'))
            \<longrightarrow> Awaited (Transitionend 0) \<in> set (trace c')"
          using t3 by (simp add: pool')
        have "\<forall>e \<in> set (trace c'). \<not> is_completion e \<and> \<not> is_opened e"
          using q wt e1 by (auto simp: trace')
        then have Q4: "opening_order (trace c')"
          by (rule opening_order_quiet)
        from Q1 Q2 Q3 Q4 have "in_transition c'"
          unfolding in_transition_def by blast
        then show ?thesis ..
      qed
    next
      case (After_makeTransition fe)
      with pre show ?thesis by simp
    next
      case (In_applyFocus fe fp)
      with pre show ?thesis by simp
    qed
    then show ?thesis by (simp only: Fire 0 c'_def)
  qed
qed

lemma opening_run_exec:
  assumes "before_transition c \<or> in_transition c"
  shows "before_transition (exec sch c) \<or> in_transition (exec sch c)"
  using assms
proof (induction sch arbitrary: c)
  case Nil
  then show ?case by simp
next
  case (Cons s sch)
  from Cons.prems have "before_transition (step s c) \<or> in_transition (step s c)"
    using before_transition_step [of c s] in_transition_step [of c s] by blast
  then show ?case unfolding exec_Cons by (rule Cons.IH)
qed

lemma opening_run_invoke:
  assumes "open w"
  shows "before_transition (invoke w)"
  using assms
  by (simp add: invoke_def managePopoverOpen_def manageDelay_def await_phase_def
      before_transition_def)

lemma opening_run_order:
  assumes "before_transition c \<or> in_transition c"
  shows "opening_order (trace c)"
  using assms
proof
  assume "before_transition c"
  then have "\<forall>e \<in> set (trace c). \<not> is_completion e \<and> \<not> is_opened e"
    by (simp add: before_transition_def)
  then show ?thesis by (rule opening_order_quiet)
next
  assume "in_transition c"
  then show ?thesis by (simp add: in_transition_def)
qed

text \<open>
  Against claim C4 as stated: an opening run that nothing interrupts. \<open>reportChange\<close>
  dispatches \<open>sp-opened\<close> on the overlay first and on the primary element second, so
  the root event is not preceded by the local one.
\<close>

theorem root_opened_before_local_counterexample:
  "trace (exec [Fire 0 False, Fire 0 False, Fire 0 False, Fire 0 False, Fire 0 False,
                Fire 0 False, Fire 0 False, Fire 0 False, Fire 0 False, Fire 0 False,
                Fire 0 False]
           (invoke opened_overlay)) =
     [Awaited Microtask, Awaited Frame, ShowPopover, ManagePosition, Awaited Position,
      Awaited Frame, Awaited Microtask, StartCallback 0, SetElOpen 0 True,
      Dispatch Root BeforetoggleOpenEvent, StartCallback 1,
      Awaited (Transitionend 0), Awaited (Transitionend 1),
      Dispatch (Element 1) (CustomEvent ''sp-opened'' False False ''auto''),
      Awaited Microtask, Awaited Frame,
      Dispatch Root (Event ''sp-opened'' False False),
      Dispatch (Element 0) (Event ''sp-opened'' False False),
      Dispatch TriggerNode (CustomEvent ''sp-opened'' True True ''auto''),
      Awaited Frame, Awaited Frame, FocusEl 7]
 \<and> \<not> preceded local_opened root_opened
       (trace (exec [Fire 0 False, Fire 0 False, Fire 0 False, Fire 0 False, Fire 0 False,
                Fire 0 False, Fire 0 False, Fire 0 False, Fire 0 False, Fire 0 False,
                Fire 0 False]
           (invoke opened_overlay)))"
  by (simp add: invoke_def managePopoverOpen_def manageDelay_def await_phase_def await_last_def
      ensureOnDOM_def try_matches_def makeTransition_def guaranteedAllTransitionend_def
      start_def applyFocus_def finish_def reportChange_def reportChange_resume_def eventName_def
      opened_overlay_def surface_def tooltip_def enumerate_eq_zip upt_rec Let_def)

text \<open>
  Claim C4, amended. In a run of \<open>managePopoverOpen\<close> on an open overlay, under every
  schedule and whatever the page does meanwhile: every \<open>sp-opened\<close> event comes after
  the \<open>BeforetoggleOpenEvent\<close> on the overlay; no \<open>start\<close> callback runs after a
  \<open>finish\<close> callback was called; the \<open>sp-opened\<close> event on the overlay comes after
  the waiter called \<open>finish\<close> of element 0, the local \<open>sp-opened\<close> event on element 0
  comes after the one on the overlay, and the trigger's event after the local one.
  \<open>makeTransition\<close> calls \<open>start\<close> for every element, in order, and only hands every
  \<open>finish\<close> to the waiter.
\<close>

theorem opening_run_event_order:
  "open w \<longrightarrow>
     opening_order (trace (exec sch (invoke w)))
   \<and> (case makeTransition True w of
        (effs, w', focusEl, tasks) \<Rightarrow>
          filter is_start effs = map StartCallback [0..<length (elements w)]
          \<and> tasks = map (\<lambda>i. (Transitionend i, Finish True i)) [0..<length (elements w)])"
proof
  assume o: "open w"
  have "before_transition (invoke w) \<or> in_transition (invoke w)"
    using opening_run_invoke [OF o] ..
  then have "before_transition (exec sch (invoke w)) \<or> in_transition (exec sch (invoke w))"
    by (rule opening_run_exec)
  then have 1: "opening_order (trace (exec sch (invoke w)))"
    by (rule opening_run_order)
  obtain effs w' f tasks where m: "makeTransition True w = (effs, w', f, tasks)"
    by (cases "makeTransition True w")
  from makeTransition_effects [OF o m] m
  have 2: "case makeTransition True w of
        (effs, w', focusEl, tasks) \<Rightarrow>
          filter is_start effs = map StartCallback [0..<length (elements w)]
          \<and> tasks = map (\<lambda>i. (Transitionend i, Finish True i)) [0..<length (elements w)]"
    by simp
  from 1 2 show "opening_order (trace (exec sch (invoke w)))
   \<and> (case makeTransition True w of
        (effs, w', focusEl, tasks) \<Rightarrow>
          filter is_start effs = map StartCallback [0..<length (elements w)]
          \<and> tasks = map (\<lambda>i. (Transitionend i, Finish True i)) [0..<length (elements w)])"
    by (rule conjI)
qed

theorem opening_run_event_order_witness:
  "open opened_overlay
 \<and> opening_order
     (trace (exec [Fire 0 False, Fire 0 False, Fire 0 False, Fire 0 False, Fire 0 False,
                   Fire 1 False, Fire 0 False, Fire 0 False, Fire 0 False, Fire 0 False,
                   Fire 0 False]
              (invoke opened_overlay)))"
proof -
  have h: "open opened_overlay"
    by (simp add: opened_overlay_def)
  from conjunct1 [OF mp [OF opening_run_event_order h]] h show ?thesis
    by (rule conjI [rotated])
qed

section \<open>Returning focus\<close>

text \<open>
  Claim C7. With \<open>receivesFocus === 'false'\<close> or type \<open>'hint'\<close> the focus phase
  returns at once: no frame is awaited and nothing is focused, whatever happens later.
  Otherwise it awaits two frames; let \<open>f1\<close> and \<open>f2\<close> be what the page does to the
  overlay meanwhile. On a close target with \<open>open\<close> still false after the two frames,
  the trigger is focused exactly when it is a real element and the active element lies
  inside the overlay at that moment, and nothing else is focused. For any target, if
  the active element lies outside the overlay then, the trigger is not focused.
\<close>

theorem applyFocus_restores_focus_guarded:
  "((receivesFocus w = ''false'' \<or> type w = ''hint'') \<longrightarrow>
      run_phase (applyFocus_resume t focusEl) env (applyFocus t focusEl w) = ([], w, Returned))
 \<and> (receivesFocus w \<noteq> ''false'' \<and> type w \<noteq> ''hint'' \<and> \<not> open (f2 (f1 w)) \<longrightarrow>
      run_phase (applyFocus_resume False focusEl) ((f1, v1) # (f2, v2) # env)
          (applyFocus False focusEl w) =
        (Awaited Frame # Awaited Frame #
           (if triggerElement (f2 (f1 w)) = Some HTMLElement \<and> contains_activeElement (f2 (f1 w))
            then [FocusTrigger] else []),
         f2 (f1 w), Returned))
 \<and> (\<not> contains_activeElement (f2 (f1 w)) \<longrightarrow>
      FocusTrigger \<notin> set (fst (run_phase (applyFocus_resume t focusEl) ((f1, v1) # (f2, v2) # env)
          (applyFocus t focusEl w))))"
proof -
  consider "triggerElement (f2 (f1 w)) = None"
    | "triggerElement (f2 (f1 w)) = Some VirtualTrigger"
    | "triggerElement (f2 (f1 w)) = Some HTMLElement"
    by (metis option.exhaust trigger.exhaust)
  then show ?thesis
    by cases (cases focusEl; simp add: applyFocus_def)+
qed

theorem applyFocus_restores_focus_guarded_witness:
  "run_phase (applyFocus_resume False None)
      [(\<lambda>w. w, False), (\<lambda>w. w\<lparr>contains_activeElement := False\<rparr>, False)]
      (applyFocus False None closed_overlay) =
     ([Awaited Frame, Awaited Frame], closed_overlay\<lparr>contains_activeElement := False\<rparr>, Returned)
 \<and> run_phase (applyFocus_resume False None) [(\<lambda>w. w, False), (\<lambda>w. w, False)]
      (applyFocus False None closed_overlay) =
     ([Awaited Frame, Awaited Frame, FocusTrigger], closed_overlay, Returned)"
proof -
  have h: "receivesFocus closed_overlay \<noteq> ''false'' \<and> type closed_overlay \<noteq> ''hint''
      \<and> \<not> open ((\<lambda>w. w\<lparr>contains_activeElement := False\<rparr>) ((\<lambda>w. w) closed_overlay))"
    by (simp add: closed_overlay_def)
  have h': "receivesFocus closed_overlay \<noteq> ''false'' \<and> type closed_overlay \<noteq> ''hint''
      \<and> \<not> open ((\<lambda>w. w) ((\<lambda>w. w) closed_overlay))"
    by (simp add: closed_overlay_def)
  note a = mp [OF conjunct1 [OF conjunct2 [OF applyFocus_restores_focus_guarded
    [where w = closed_overlay and ?f1.0 = "\<lambda>w. w"
       and ?f2.0 = "\<lambda>w. w\<lparr>contains_activeElement := False\<rparr>" and focusEl = None
       and ?v1.0 = False and ?v2.0 = False and env = "[]"]]] h]
  note b = mp [OF conjunct1 [OF conjunct2 [OF applyFocus_restores_focus_guarded
    [where w = closed_overlay and ?f1.0 = "\<lambda>w. w" and ?f2.0 = "\<lambda>w. w" and focusEl = None
       and ?v1.0 = False and ?v2.0 = False and env = "[]"]]] h']
  from a have a': "run_phase (applyFocus_resume False None)
      [(\<lambda>w. w, False), (\<lambda>w. w\<lparr>contains_activeElement := False\<rparr>, False)]
      (applyFocus False None closed_overlay) =
     ([Awaited Frame, Awaited Frame], closed_overlay\<lparr>contains_activeElement := False\<rparr>, Returned)"
    by (simp add: closed_overlay_def)
  from b have b': "run_phase (applyFocus_resume False None) [(\<lambda>w. w, False), (\<lambda>w. w, False)]
      (applyFocus False None closed_overlay) =
     ([Awaited Frame, Awaited Frame, FocusTrigger], closed_overlay, Returned)"
    by (simp add: closed_overlay_def)
  from a' b' show ?thesis by (rule conjI)
qed

section \<open>Who writes \<open>open\<close>\<close>

lemma start_frame:
  "start t el index (w, f) = (effs, (w', f')) \<Longrightarrow>
     w' = w\<lparr>elements := elements w'\<rparr> \<and> \<not> list_ex is_SetOpen effs"
  by (auto simp: start_def Let_def split: if_splits prod.splits)

lemma forEach_elements_frame:
  "forEach_elements t xs (w, f) = (effs, (w', f'), tasks) \<Longrightarrow>
     w' = w\<lparr>elements := elements w'\<rparr> \<and> \<not> list_ex is_SetOpen effs"
proof (induction xs arbitrary: w f effs w' f' tasks)
  case Nil
  then show ?case by simp
next
  case (Cons x xs)
  obtain index el where x: "x = (index, el)" by (cases x)
  obtain e1 w1 f1 where s: "start t el index (w, f) = (e1, (w1, f1))"
    by (metis surj_pair)
  obtain e2 w2 f2 t2 where r: "forEach_elements t xs (w1, f1) = (e2, (w2, f2), t2)"
    by (metis surj_pair)
  from Cons.prems x s r have eq: "effs = StartCallback index # e1 @ e2" "w' = w2"
    by (simp_all add: guaranteedAllTransitionend_def)
  from start_frame [OF s] have 1: "w1 = w\<lparr>elements := elements w1\<rparr>" "\<not> list_ex is_SetOpen e1"
    by simp_all
  from Cons.IH [OF r] have 2: "w2 = w1\<lparr>elements := elements w2\<rparr>" "\<not> list_ex is_SetOpen e2"
    by simp_all
  have "w1\<lparr>elements := elements w2\<rparr> = w\<lparr>elements := elements w2\<rparr>"
    by (subst 1(1)) simp
  with 2(1) have "w2 = w\<lparr>elements := elements w2\<rparr>" by simp
  with 1(2) 2(2) eq show ?case by simp
qed

lemma makeTransition_frame:
  "makeTransition t w = (effs, w', focusEl, tasks) \<Longrightarrow>
     w' = w\<lparr>elements := elements w'\<rparr> \<and> \<not> list_ex is_SetOpen effs"
  by (auto simp: makeTransition_def split: if_splits prod.splits dest: forEach_elements_frame)

lemma makeTransition_open:
  "makeTransition t w = (effs, w', focusEl, tasks) \<Longrightarrow>
     open w' = open w \<and> \<not> list_ex is_SetOpen effs"
proof -
  assume "makeTransition t w = (effs, w', focusEl, tasks)"
  from makeTransition_frame [OF this]
  have f: "w' = w\<lparr>elements := elements w'\<rparr>" and e: "\<not> list_ex is_SetOpen effs"
    by simp_all
  from arg_cong [OF f, of "open"] e show ?thesis by simp
qed

lemma resume_task_open:
  assumes "\<not> in_delay_phase tk"
  shows "case resume_task tk v w of (effs, w', tasks) \<Rightarrow>
     open w' = open w \<and> \<not> list_ex is_SetOpen effs"
proof (cases tk)
  case (Driver t pt)
  show ?thesis
  proof (cases pt)
    case (In_manageDelay p)
    with assms Driver show ?thesis by simp
  next
    case After_manageDelay
    with Driver show ?thesis by (simp add: ensureOnDOM_def await_phase_def)
  next
    case (In_ensureOnDOM dp)
    with Driver show ?thesis by (cases dp) (simp_all add: Let_def await_phase_def)
  next
    case After_ensureOnDOM
    obtain effs w' f tasks where m: "makeTransition t w = (effs, w', f, tasks)"
      by (metis surj_pair)
    from makeTransition_open [OF m] Driver After_ensureOnDOM m show ?thesis by simp
  next
    case (After_makeTransition f)
    with Driver show ?thesis by (simp add: applyFocus_def await_last_def)
  next
    case (In_applyFocus f fp)
    with Driver show ?thesis by (cases fp) (simp_all add: await_last_def split: option.splits)
  qed
next
  case (Finish t i)
  then show ?thesis by (simp add: finish_def reportChange_def Let_def)
next
  case (Listener t i)
  then show ?thesis by (simp add: reportChange_def)
next
  case (Report t i)
  then show ?thesis by (simp add: reportChange_resume_def Let_def)
qed

text \<open>
  Claim C9. Only the delay phase writes the controller's \<open>open\<close>. Resuming any
  suspended task other than the driver inside \<open>manageDelay\<close> (the DOM-attach,
  transition and focus phases, the \<open>finish\<close> callbacks, the beforetoggle listener and
  \<open>reportChange\<close>) leaves \<open>open\<close> as it was and performs no \<open>this.open = ...\<close>;
  the DOM-attach and focus phases return the overlay unchanged, and the transition
  phase changes the elements' own \<open>open\<close> flags at most. The delay phase does write
  it: resumed with a cancelled timer it sets \<open>open\<close> to the inverse of the target.
\<close>

theorem open_written_by_delay_phase_only:
  "(\<not> in_delay_phase tk \<longrightarrow>
      (case resume_task tk v w of (effs, w', tasks) \<Rightarrow>
         open w' = open w \<and> \<not> list_ex is_SetOpen effs))
 \<and> (case ensureOnDOM t w of (effs, w', st) \<Rightarrow> w' = w \<and> \<not> list_ex is_SetOpen effs)
 \<and> (case ensureOnDOM_resume t dp v w of (effs, w', st) \<Rightarrow>
        w' = w \<and> \<not> list_ex is_SetOpen effs)
 \<and> (case makeTransition t w of (effs, w', focusEl', tasks) \<Rightarrow>
        w' = w\<lparr>elements := elements w'\<rparr> \<and> \<not> list_ex is_SetOpen effs)
 \<and> (case applyFocus t focusEl w of (effs, w', st) \<Rightarrow> w' = w \<and> \<not> list_ex is_SetOpen effs)
 \<and> (case applyFocus_resume t focusEl fp v w of (effs, w', st) \<Rightarrow>
        w' = w \<and> \<not> list_ex is_SetOpen effs)
 \<and> manageDelay_resume t Delay_openTimer True w =
       ([SetOpen (\<not> t)], w\<lparr>open := \<not> t\<rparr>, Returned)"
proof -
  have 0: "\<not> in_delay_phase tk \<longrightarrow>
      (case resume_task tk v w of (effs, w', tasks) \<Rightarrow>
         open w' = open w \<and> \<not> list_ex is_SetOpen effs)"
    using resume_task_open [where tk = tk and v = v and w = w] by blast
  have 1: "case ensureOnDOM t w of (effs, w', st) \<Rightarrow> w' = w \<and> \<not> list_ex is_SetOpen effs"
    by (simp add: ensureOnDOM_def)
  have 2: "case ensureOnDOM_resume t dp v w of (effs, w', st) \<Rightarrow>
        w' = w \<and> \<not> list_ex is_SetOpen effs"
    by (cases dp) (simp_all add: Let_def)
  have 3: "case makeTransition t w of (effs, w', focusEl', tasks) \<Rightarrow>
        w' = w\<lparr>elements := elements w'\<rparr> \<and> \<not> list_ex is_SetOpen effs"
    using makeTransition_frame [of t w] by (auto split: prod.splits)
  have 7: "case applyFocus t focusEl w of (effs, w', st) \<Rightarrow>
        w' = w \<and> \<not> list_ex is_SetOpen effs"
    by (simp add: applyFocus_def)
  have 8: "case applyFocus_resume t focusEl fp v w of (effs, w', st) \<Rightarrow>
        w' = w \<and> \<not> list_ex is_SetOpen effs"
    by (cases fp) (simp_all split: option.splits)
  have 9: "manageDelay_resume t Delay_openTimer True w =
       ([SetOpen (\<not> t)], w\<lparr>open := \<not> t\<rparr>, Returned)"
    by simp
  from 0 1 2 3 7 8 9 show ?thesis by blast
qed

theorem open_written_by_delay_phase_only_witness:
  "(case resume_task (Finish False 0) False closed_overlay of (effs, w', tasks) \<Rightarrow>
      open w' = open closed_overlay \<and> \<not> list_ex is_SetOpen effs)
 \<and> manageDelay_resume True Delay_openTimer True opened_overlay =
       ([SetOpen False], opened_overlay\<lparr>open := False\<rparr>, Returned)"
proof -
  note inst = open_written_by_delay_phase_only
    [where tk = "Finish False 0" and v = False and t = True
       and dp = Dom_nextFrame1 and focusEl = None and fp = Focus_nextFrame1]
  have a: "case resume_task (Finish False 0) False closed_overlay of (effs, w', tasks) \<Rightarrow>
      open w' = open closed_overlay \<and> \<not> list_ex is_SetOpen effs"
    by (rule mp [OF conjunct1 [OF inst]]) simp
  have "manageDelay_resume True Delay_openTimer True opened_overlay =
       ([SetOpen (\<not> True)], opened_overlay\<lparr>open := \<not> True\<rparr>, Returned)"
    by (rule inst [where w = opened_overlay, THEN conjunct2, THEN conjunct2, THEN conjunct2,
          THEN conjunct2, THEN conjunct2, THEN conjunct2])
  with a show ?thesis by simp
qed

section \<open>Stale runs\<close>


lemma stale_resume:
  assumes "checks_open tk" "open w \<noteq> target_of tk"
  shows "resume_task tk v w = ([], w, [])"
proof (cases tk)
  case (Driver t pt)
  with assms show ?thesis by (cases pt) simp_all
next
  case (Finish t i)
  with assms show ?thesis by (simp add: finish_def)
next
  case (Listener t i)
  with assms show ?thesis by (simp add: reportChange_def)
next
  case (Report t i)
  with assms show ?thesis by simp
qed

lemma step_retire:
  assumes "i < length (pool c)" "resume_task (snd (pool c ! i)) v (world c) = (effs, world c, tasks)"
  shows "step (Fire i v) c = retire i effs tasks c"
  using assms by (cases "pool c ! i") (simp add: retire_def)

lemma stale_step:
  assumes "i < length (pool c)" "checks_open (snd (pool c ! i))"
    "open (world c) \<noteq> target_of (snd (pool c ! i))"
  shows "step (Fire i v) c = retire i [] [] c"
  using assms(1) stale_resume [OF assms(2,3)] by (rule step_retire)

lemma stale_alone:
  assumes "i < length (pool c)" "checks_open (snd (pool c ! i))"
    "open (world c) \<noteq> target_of (snd (pool c ! i))" "length (pool c) = 1"
  shows "trace (exec (Fire i v # sch) c) = trace c @ [Awaited (fst (pool c ! i))]
      \<and> pool (exec (Fire i v # sch) c) = []"
proof -
  from assms(1,4) have i: "i = 0" by simp
  from assms(4) have "take 0 (pool c) @ drop (Suc 0) (pool c) = []" by simp
  then have p: "pool (retire i [] [] c) = []"
    by (simp add: retire_def i)
  have t: "trace (retire i [] [] c) = trace c @ [Awaited (fst (pool c ! i))]"
    by (simp add: retire_def)
  from exec_empty_pool [OF p, of sch] t show ?thesis
    unfolding exec_Cons stale_step [OF assms(1-3)] by simp
qed

lemma stale_ensureOnDOM:
  assumes "i < length (pool c)" "snd (pool c ! i) = Driver t (In_ensureOnDOM Dom_nextFrame1)"
    "open (world c) \<noteq> t"
  shows "exec [Fire i v, Env g, Fire (length (pool c) - 1) v'] c =
    (retire i [Awaited Frame] [(Microtask, Driver t After_ensureOnDOM)] c)\<lparr>world := g (world c)\<rparr>"
proof -
  define rest where "rest = take i (pool c) @ drop (Suc i) (pool c)"
  define k where "k = length (pool c) - 1"
  have r: "resume_task (snd (pool c ! i)) v (world c) =
      ([], world c, [(Frame, Driver t (In_ensureOnDOM Dom_nextFrame2))])"
    using assms(2,3) by (simp add: await_phase_def Let_def)
  have s1: "step (Fire i v) c = retire i [] [(Frame, Driver t (In_ensureOnDOM Dom_nextFrame2))] c"
    using assms(1) r by (rule step_retire)
  have len: "length rest = k"
    using assms(1) by (simp add: rest_def k_def)
  define c1 where "c1 = step (Env g) (step (Fire i v) c)"
  have p1: "pool c1 = rest @ [(Frame, Driver t (In_ensureOnDOM Dom_nextFrame2))]"
    and t1: "trace c1 = trace c @ [Awaited (fst (pool c ! i))]"
    and w1: "world c1 = g (world c)"
    unfolding c1_def s1 by (simp_all add: retire_def rest_def)
  have n: "pool c1 ! k = (Frame, Driver t (In_ensureOnDOM Dom_nextFrame2))"
    unfolding p1 len [symmetric] by (rule nth_append_length)
  have l: "k < length (pool c1)"
    unfolding p1 len [symmetric] by simp
  have tk: "take k (pool c1) = rest" "drop (Suc k) (pool c1) = []"
    unfolding p1 len [symmetric] by simp_all
  have s2: "step (Fire k v') c1 =
      \<lparr>world = g (world c), pool = rest @ [(Microtask, Driver t After_ensureOnDOM)],
       trace = trace c @ [Awaited (fst (pool c ! i)), Awaited Frame]\<rparr>"
    using l by (simp add: n tk t1 w1 await_phase_def)
  have "exec [Fire i v, Env g, Fire (length (pool c) - 1) v'] c = step (Fire k v') c1"
    by (simp only: exec_Cons exec_Nil c1_def k_def)
  also note s2
  also have "\<lparr>world = g (world c), pool = rest @ [(Microtask, Driver t After_ensureOnDOM)],
       trace = trace c @ [Awaited (fst (pool c ! i)), Awaited Frame]\<rparr> =
    (retire i [Awaited Frame] [(Microtask, Driver t After_ensureOnDOM)] c)\<lparr>world := g (world c)\<rparr>"
    by (simp add: retire_def rest_def)
  finally show ?thesis .
qed

lemma stale_applyFocus:
  assumes "i < length (pool c)"
    "snd (pool c ! i) = Driver t (In_applyFocus focusEl Focus_nextFrame2)"
    "open (world c) \<noteq> t"
  shows "step (Fire i v) c =
    retire i (case focusEl of None \<Rightarrow> [] | Some el \<Rightarrow> [FocusEl el]) [] c"
proof -
  have "resume_task (snd (pool c ! i)) v (world c) =
      ((case focusEl of None \<Rightarrow> [] | Some el \<Rightarrow> [FocusEl el]), world c, [])"
    using assms(2,3) by (auto simp: await_last_def)
  with assms(1) show ?thesis by (rule step_retire)
qed

lemma stale_driver_ends_run:
  assumes "open w" "0 < length (pool (exec sch0 (invoke w)))"
    "pool (exec sch0 (invoke w)) ! 0 = (wt, Driver True pt)"
    "pt = After_manageDelay \<or> pt = After_ensureOnDOM"
    "\<not> open (world (exec sch0 (invoke w)))"
  shows "trace (exec (sch0 @ Fire 0 v # sch) (invoke w)) =
      trace (exec sch0 (invoke w)) @ [Awaited wt]
    \<and> pool (exec (sch0 @ Fire 0 v # sch) (invoke w)) = []"
proof -
  define c where "c = exec sch0 (invoke w)"
  have inv: "before_transition c \<or> in_transition c"
    unfolding c_def using opening_run_invoke [OF assms(1)]
    by (intro opening_run_exec) blast
  have mem: "(wt, Driver True pt) \<in> set (pool c)"
    using assms(2,3) unfolding c_def [symmetric] by (metis nth_mem)
  have pre: "pre_transition pt"
    using assms(4) by auto
  have "\<not> in_transition c"
  proof
    assume "in_transition c"
    then have "\<forall>x \<in> set (pool c). post_task x"
      by (simp add: in_transition_def)
    with mem have "post_task (wt, Driver True pt)" by blast
    with pre show False by simp
  qed
  with inv have "before_transition c" by blast
  then obtain wt' pt' where "pool c = [(wt', Driver True pt')]"
    unfolding before_transition_def by blast
  with assms(3) have single: "length (pool c) = 1" and at: "pool c ! 0 = (wt, Driver True pt)"
    unfolding c_def [symmetric] by simp_all
  have chk: "checks_open (snd (pool c ! 0))"
    using assms(4) at by auto
  have stale: "open (world c) \<noteq> target_of (snd (pool c ! 0))"
    using assms(5) at unfolding c_def [symmetric] by simp
  have "0 < length (pool c)" using single by simp
  from stale_alone [OF this chk stale single, of v sch] at
  have "trace (exec (Fire 0 v # sch) c) = trace c @ [Awaited wt]
      \<and> pool (exec (Fire 0 v # sch) c) = []"
    by simp
  then show ?thesis
    unfolding exec_append c_def [symmetric] .
qed



end
